theory Spec2Isabelle
  imports Main
begin

section \<open>The ARM ArgMaxOrMin layer of TNN\<close>

text \<open>
  A shallow embedding of \<^verbatim>\<open>source/tnn/device/arm/acc/arm_arg_max_or_min_layer_acc.cc\<close>.

  Conventions of the embedding.
  \<^item> Memory reached through a typed pointer is a function from element offsets to
    contents; input, output and workspace are separate buffers.
  \<^item> An input value is an element of a linear order \<open>'a\<close>: the kernel only loads, compares
    and copies input values, and on floats that are not NaN these are exact. NaN is outside
    the model.
  \<^item> An index is a 32-bit float whose value is a natural number, and is that number. Every
    conversion from \<^verbatim>\<open>int\<close> and every product and sum of indices is rounded to 24
    significant bits, to nearest, ties to even (\<open>f32\<close>).
  \<^item> The extents \<^verbatim>\<open>dims[0..3]\<close> are natural numbers. The products the dispatcher and the
    two direct strategies form from them are 32-bit \<^verbatim>\<open>int\<close> products and wrap around
    (\<open>int32\<close>); the pointer offsets formed inside the loops stay below the padded element
    count and are not wrapped.
  \<^item> Where a product leaves the 32-bit range the C++ code has no defined behaviour; the model
    wraps the product and runs the loops on the wrapped value, a negative bound as 0.
  \<^item> \<^verbatim>\<open>OMP_PARALLEL_FOR_\<close> loops run their iterations in increasing order; the iterations
    write disjoint cells.
  \<^item> Every \<^verbatim>\<open>for\<close> loop is a recursive function on its counter, named after the function
    and the extent it walks. The loop variable \<^verbatim>\<open>o\<close> is written \<open>ou\<close> and the template
    parameter \<^verbatim>\<open>mode\<close> is written \<open>md\<close>.
\<close>

subsection \<open>Machine arithmetic\<close>

text \<open>The two's complement wrap-around of a 32-bit \<^verbatim>\<open>int\<close>, and its division, which truncates.\<close>

definition int32 :: "int \<Rightarrow> int" where
  "int32 x = (x + 2 ^ 31) mod 2 ^ 32 - 2 ^ 31"

definition int_div :: "int \<Rightarrow> int \<Rightarrow> int" where
  "int_div a b = sgn a * sgn b * (\<bar>a\<bar> div \<bar>b\<bar>)"

text \<open>The number of binary digits of a natural number.\<close>

fun bitlen :: "nat \<Rightarrow> nat" where
  "bitlen n = (if n = 0 then 0 else Suc (bitlen (n div 2)))"

declare bitlen.simps [simp del]

text \<open>
  The 32-bit float nearest to a natural number: 24 significant bits, ties to even. (The
  numbers met here are far below the largest float.)
\<close>

definition f32 :: "nat \<Rightarrow> nat" where
  "f32 n =
     (if bitlen n \<le> 24 then n
      else let e = bitlen n - 24; q = n div 2 ^ e; r = n mod 2 ^ e; h = 2 ^ (e - 1)
           in if r < h \<or> (r = h \<and> even q) then q * 2 ^ e else (q + 1) * 2 ^ e)"

text \<open>Float product and sum of two indices: the exact result, rounded.\<close>

definition f32_mul :: "nat \<Rightarrow> nat \<Rightarrow> nat" where
  "f32_mul x y = f32 (x * y)"

definition f32_add :: "nat \<Rightarrow> nat \<Rightarrow> nat" where
  "f32_add x y = f32 (x + y)"

subsection \<open>Types of the surrounding runtime\<close>

text \<open>
  Modelled from the spec: the enumeration \<^verbatim>\<open>DataType\<close> is declared outside the sources.
  The spec names the float output kind and two supported input kinds; the remaining
  constructors stand for the unsupported kinds.
\<close>

datatype DataType =
  DATA_TYPE_FLOAT | DATA_TYPE_HALF | DATA_TYPE_INT8 | DATA_TYPE_INT32 | DATA_TYPE_BFP16

text \<open>The template parameter \<^verbatim>\<open>T\<close> of \<^verbatim>\<open>Exec\<close>: \<^verbatim>\<open>float\<close> or \<^verbatim>\<open>bfp16_t\<close>.\<close>

datatype T = T_float | T_bfp16_t

fun sizeof_T :: "T \<Rightarrow> nat" where
  "sizeof_T T_float = 4"
| "sizeof_T T_bfp16_t = 2"

text \<open>
  Modelled from the spec: \<^verbatim>\<open>DataTypeUtils::GetBytesSize\<close> is declared outside the sources.
  The spec fixes a 32-bit float; the other sizes are the widths the type names carry.
\<close>

fun GetBytesSize :: "DataType \<Rightarrow> nat" where
  "GetBytesSize DATA_TYPE_FLOAT = 4"
| "GetBytesSize DATA_TYPE_HALF = 2"
| "GetBytesSize DATA_TYPE_INT8 = 1"
| "GetBytesSize DATA_TYPE_INT32 = 4"
| "GetBytesSize DATA_TYPE_BFP16 = 2"

datatype Status = TNN_OK | TNNERR_MODEL_ERR string | TNNERR_PARAM_ERR string

text \<open>The four extents \<^verbatim>\<open>dims[0..3]\<close> of a blob (N, C, H, W).\<close>

record DimsVector =
  dim0 :: nat
  dim1 :: nat
  dim2 :: nat
  dim3 :: nat

record 'c Blob =
  data_type :: DataType
  dims :: DimsVector
  base :: "nat \<Rightarrow> 'c"

record ArgMaxOrMinLayerParam =
  mode :: int
  axis :: int

text \<open>
  The content of a cell of the output blob: a float the caller left there (\<open>Keep\<close>); a
  float that holds a natural number (\<open>Idx\<close>), which is what a store through a \<^verbatim>\<open>float *\<close>
  leaves; or a 16-bit cell left by a store through a \<^verbatim>\<open>bfp16_t *\<close>, the narrowing of the
  float that holds the given natural number (\<open>Idx_bfp16\<close>). The narrowing belongs to
  \<^verbatim>\<open>Float4::save\<close>, outside the sources, and is not interpreted.
\<close>

datatype 'a cell = Keep 'a | Idx nat | Idx_bfp16 nat

text \<open>The cell a store of the index \<open>n\<close> through a \<^verbatim>\<open>T *\<close> leaves.\<close>

fun stored :: "T \<Rightarrow> nat \<Rightarrow> 'a cell" where
  "stored T_float n = Idx n"
| "stored T_bfp16_t n = Idx_bfp16 n"

text \<open>
  What a call leaves behind: the returned status; the memory of the output blob; the
  element type of the pointer the output handle was cast to (offsets into \<open>out_base\<close>
  count elements of that type: 4-byte cells behind a \<^verbatim>\<open>float *\<close>, 2-byte cells behind a
  \<^verbatim>\<open>bfp16_t *\<close>); the byte size asked of \<^verbatim>\<open>GetSharedWorkSpace\<close>; and the values of the
  local variables \<^verbatim>\<open>inner_dim\<close>, \<^verbatim>\<open>reduce_dim\<close>, \<^verbatim>\<open>outer_dim\<close> of the strategy that ran.
\<close>

record 'a Run =
  status :: Status
  out_base :: "nat \<Rightarrow> 'a cell"
  out_elem :: "T option"
  workspace_bytes :: "int option"
  extents :: "(int \<times> int \<times> int) option"

text \<open>
  Modelled from the spec: the macros \<^verbatim>\<open>UP_DIV\<close> and \<^verbatim>\<open>ROUND_UP\<close> are defined outside the
  sources; the spec gives \<open>ceil(C/4)\<close> and \<open>ceil(C/4)*4\<close>.
\<close>

definition UP_DIV :: "nat \<Rightarrow> nat \<Rightarrow> nat" where
  "UP_DIV x y = (x + y - 1) div y"

definition ROUND_UP :: "nat \<Rightarrow> nat \<Rightarrow> nat" where
  "ROUND_UP x y = (x + y - 1) div y * y"

subsection \<open>The lane compare primitive\<close>

text \<open>
  Modelled from the spec: the class \<^verbatim>\<open>Float4\<close> is declared outside the sources. The spec
  describes a fixed-width vector of four elements with load and save, elementwise min and
  max, and a blend that selects, lane by lane, the third operand where the first is
  strictly below (\<^verbatim>\<open>bsl_clt\<close>) or strictly above (\<^verbatim>\<open>bsl_cgt\<close>) the second, and the fourth
  operand elsewhere. A vector of input values has lanes in \<open>'a\<close>; a vector of indices has
  lanes in \<open>nat\<close>, or in \<open>'a cell\<close> where it is loaded from the output blob.
\<close>

datatype 'a Float4 = F4 'a 'a 'a 'a

fun lane :: "'a Float4 \<Rightarrow> nat \<Rightarrow> 'a" where
  "lane (F4 a b c d) k = (if k = 0 then a else if k = 1 then b else if k = 2 then c else d)"

definition Float4_splat :: "'a \<Rightarrow> 'a Float4" where
  "Float4_splat x = F4 x x x x"

text \<open>The constructor \<^verbatim>\<open>Float4(int)\<close>: the \<^verbatim>\<open>int\<close> is converted to float.\<close>

definition Float4_of_int :: "nat \<Rightarrow> nat Float4" where
  "Float4_of_int r = Float4_splat (f32 r)"

definition Float4_load :: "(nat \<Rightarrow> 'a) \<Rightarrow> nat \<Rightarrow> 'a Float4" where
  "Float4_load m p = F4 (m p) (m (p + 1)) (m (p + 2)) (m (p + 3))"

definition Float4_save :: "(nat \<Rightarrow> 'a) \<Rightarrow> nat \<Rightarrow> 'a Float4 \<Rightarrow> (nat \<Rightarrow> 'a)" where
  "Float4_save m p v = m(p := lane v 0, p + 1 := lane v 1, p + 2 := lane v 2, p + 3 := lane v 3)"

text \<open>Saving a vector of indices into the output blob through a \<^verbatim>\<open>T *\<close>.\<close>

definition Float4_save_index ::
  "T \<Rightarrow> (nat \<Rightarrow> 'a cell) \<Rightarrow> nat \<Rightarrow> nat Float4 \<Rightarrow> (nat \<Rightarrow> 'a cell)" where
  "Float4_save_index t m p v = Float4_save m p (map_Float4 (stored t) v)"

definition set_lane :: "'a Float4 \<Rightarrow> 'a \<Rightarrow> nat \<Rightarrow> 'a Float4" where
  "set_lane v x k =
     F4 (if k = 0 then x else lane v 0) (if k = 1 then x else lane v 1)
        (if k = 2 then x else lane v 2) (if k = 3 then x else lane v 3)"

definition bsl_clt ::
  "('a::linorder) Float4 \<Rightarrow> 'a Float4 \<Rightarrow> 'b Float4 \<Rightarrow> 'b Float4 \<Rightarrow> 'b Float4" where
  "bsl_clt a b c d =
     F4 (if lane a 0 < lane b 0 then lane c 0 else lane d 0)
        (if lane a 1 < lane b 1 then lane c 1 else lane d 1)
        (if lane a 2 < lane b 2 then lane c 2 else lane d 2)
        (if lane a 3 < lane b 3 then lane c 3 else lane d 3)"

definition bsl_cgt ::
  "('a::linorder) Float4 \<Rightarrow> 'a Float4 \<Rightarrow> 'b Float4 \<Rightarrow> 'b Float4 \<Rightarrow> 'b Float4" where
  "bsl_cgt a b c d =
     F4 (if lane a 0 > lane b 0 then lane c 0 else lane d 0)
        (if lane a 1 > lane b 1 then lane c 1 else lane d 1)
        (if lane a 2 > lane b 2 then lane c 2 else lane d 2)
        (if lane a 3 > lane b 3 then lane c 3 else lane d 3)"

definition Float4_min :: "('a::linorder) Float4 \<Rightarrow> 'a Float4 \<Rightarrow> 'a Float4" where
  "Float4_min a b =
     F4 (min (lane a 0) (lane b 0)) (min (lane a 1) (lane b 1))
        (min (lane a 2) (lane b 2)) (min (lane a 3) (lane b 3))"

definition Float4_max :: "('a::linorder) Float4 \<Rightarrow> 'a Float4 \<Rightarrow> 'a Float4" where
  "Float4_max a b =
     F4 (max (lane a 0) (lane b 0)) (max (lane a 1) (lane b 1))
        (max (lane a 2) (lane b 2)) (max (lane a 3) (lane b 3))"

text \<open>\<^verbatim>\<open>memcpy\<close> on \<open>n\<close> elements, and \<^verbatim>\<open>memset(_, 0, _)\<close> on \<open>n\<close> floats of the output blob.\<close>

definition memcpy :: "(nat \<Rightarrow> 'a) \<Rightarrow> nat \<Rightarrow> (nat \<Rightarrow> 'a) \<Rightarrow> nat \<Rightarrow> nat \<Rightarrow> (nat \<Rightarrow> 'a)" where
  "memcpy dst d src s n = (\<lambda>a. if d \<le> a \<and> a < d + n then src (s + (a - d)) else dst a)"

definition memset0 :: "(nat \<Rightarrow> 'a cell) \<Rightarrow> nat \<Rightarrow> nat \<Rightarrow> (nat \<Rightarrow> 'a cell)" where
  "memset0 dst d n = (\<lambda>a. if d \<le> a \<and> a < d + n then Idx 0 else dst a)"

subsection \<open>The running compare of \<^verbatim>\<open>ExecWithoutWorkspace\<close>\<close>

text \<open>
  One round of the compare that \<^verbatim>\<open>ExecWithoutWorkspace\<close> and \<^verbatim>\<open>ExecImpl\<close> both spell out:
  the new \<open>(guard_index, guard_value)\<close>.
\<close>

definition compare_round ::
  "int \<Rightarrow> ('a::linorder) Float4 \<Rightarrow> 'b Float4 \<Rightarrow> 'a Float4 \<Rightarrow> 'b Float4 \<Rightarrow> 'b Float4 \<times> 'a Float4" where
  "compare_round md cur_value cur_index guard_value guard_index =
     (if md = 0 then
        (bsl_clt cur_value guard_value cur_index guard_index, Float4_min cur_value guard_value)
      else
        (bsl_cgt cur_value guard_value cur_index guard_index, Float4_max cur_value guard_value))"

function ExecWithoutWorkspace_loop ::
  "int \<Rightarrow> (nat \<Rightarrow> 'a::linorder) \<Rightarrow> nat \<Rightarrow> nat \<Rightarrow> nat \<Rightarrow> nat \<Rightarrow>
   nat Float4 \<times> 'a Float4 \<Rightarrow> nat Float4 \<times> 'a Float4" where
  "ExecWithoutWorkspace_loop md inp input_ptr_base outer_dim reduce_dim r (guard_index, guard_value) =
     (if r < reduce_dim then
        let input_ptr_r = input_ptr_base + r * outer_dim;
            cur_index = Float4_of_int r;
            cur_value = Float4_load inp input_ptr_r
        in ExecWithoutWorkspace_loop md inp input_ptr_base outer_dim reduce_dim (Suc r)
             (compare_round md cur_value cur_index guard_value guard_index)
      else (guard_index, guard_value))"
  by pat_completeness auto
termination
  by (relation "measure (\<lambda>(md, inp, input_ptr_base, outer_dim, reduce_dim, r, g). reduce_dim - r)") auto

declare ExecWithoutWorkspace_loop.simps [simp del]

text \<open>
  The macro: the updated output memory, and \<open>guard_index\<close> and \<open>guard_value\<close>, which stay in
  scope for the code after the macro. \<open>t\<close> is the element type of \<^verbatim>\<open>output_ptr_base\<close>.
\<close>

definition ExecWithoutWorkspace ::
  "T \<Rightarrow> (nat \<Rightarrow> 'a::linorder) \<Rightarrow> (nat \<Rightarrow> 'a cell) \<Rightarrow> nat \<Rightarrow> nat \<Rightarrow> nat \<Rightarrow> nat \<Rightarrow> int \<Rightarrow>
   (nat \<Rightarrow> 'a cell) \<times> nat Float4 \<times> 'a Float4" where
  "ExecWithoutWorkspace t inp out input_ptr_base output_ptr_base outer_dim reduce_dim md =
     (let (guard_index, guard_value) =
            ExecWithoutWorkspace_loop md inp input_ptr_base outer_dim reduce_dim 1
              (Float4_of_int 0, Float4_load inp input_ptr_base)
      in (Float4_save_index t out output_ptr_base guard_index, guard_index, guard_value))"

subsection \<open>\<^verbatim>\<open>ExecImpl\<close>: loop order inner, reduce, outer, with the workspace\<close>

function ExecImpl_outer ::
  "int \<Rightarrow> (nat \<Rightarrow> 'a::linorder) \<Rightarrow> nat \<Rightarrow> nat \<Rightarrow> nat Float4 \<Rightarrow> nat \<Rightarrow> nat \<Rightarrow>
   (nat \<Rightarrow> 'a) \<times> (nat \<Rightarrow> 'a cell) \<Rightarrow> (nat \<Rightarrow> 'a) \<times> (nat \<Rightarrow> 'a cell)" where
  "ExecImpl_outer md inp input_ptr_r output_ptr_i cur_index outer_dim ou (workspace, out) =
     (if ou < outer_dim then
        let guard_index = Float4_load out (output_ptr_i + ou);
            guard_value = Float4_load workspace ou;
            cur_value = Float4_load inp (input_ptr_r + ou);
            (guard_index', guard_value') =
               compare_round md cur_value (map_Float4 Idx cur_index) guard_value guard_index;
            out' = Float4_save out (output_ptr_i + ou) guard_index';
            workspace' = Float4_save workspace ou guard_value'
        in ExecImpl_outer md inp input_ptr_r output_ptr_i cur_index outer_dim (ou + 4) (workspace', out')
      else (workspace, out))"
  by pat_completeness auto
termination
  by (relation "measure (\<lambda>(md, inp, input_ptr_r, output_ptr_i, cur_index, outer_dim, ou, s). outer_dim - ou)") auto

declare ExecImpl_outer.simps [simp del]

function ExecImpl_reduce ::
  "int \<Rightarrow> (nat \<Rightarrow> 'a::linorder) \<Rightarrow> nat \<Rightarrow> nat \<Rightarrow> nat \<Rightarrow> nat \<Rightarrow> nat \<Rightarrow>
   (nat \<Rightarrow> 'a) \<times> (nat \<Rightarrow> 'a cell) \<Rightarrow> (nat \<Rightarrow> 'a) \<times> (nat \<Rightarrow> 'a cell)" where
  "ExecImpl_reduce md inp input_ptr_i output_ptr_i reduce_dim outer_dim r (workspace, out) =
     (if r < reduce_dim then
        let input_ptr_r = input_ptr_i + r * outer_dim;
            cur_index = Float4_of_int r
        in ExecImpl_reduce md inp input_ptr_i output_ptr_i reduce_dim outer_dim (Suc r)
             (ExecImpl_outer md inp input_ptr_r output_ptr_i cur_index outer_dim 0 (workspace, out))
      else (workspace, out))"
  by pat_completeness auto
termination
  by (relation "measure (\<lambda>(md, inp, input_ptr_i, output_ptr_i, reduce_dim, outer_dim, r, s). reduce_dim - r)") auto

declare ExecImpl_reduce.simps [simp del]

function ExecImpl_inner ::
  "T \<Rightarrow> int \<Rightarrow> (nat \<Rightarrow> 'a::linorder) \<Rightarrow> nat \<Rightarrow> nat \<Rightarrow> nat \<Rightarrow> nat \<Rightarrow> nat \<Rightarrow>
   (nat \<Rightarrow> 'a) \<times> (nat \<Rightarrow> 'a cell) \<Rightarrow> (nat \<Rightarrow> 'a) \<times> (nat \<Rightarrow> 'a cell)" where
  "ExecImpl_inner t md inp input_byte_size inner_dim reduce_dim outer_dim i (workspace, out) =
     (if i < inner_dim then
        let input_ptr_i = i * reduce_dim * outer_dim;
            output_ptr_i = i * outer_dim;
            workspace' = memcpy workspace 0 inp input_ptr_i (outer_dim * input_byte_size div sizeof_T t);
            out' = memset0 out output_ptr_i (outer_dim * sizeof_T T_float div sizeof_T T_float)
        in ExecImpl_inner t md inp input_byte_size inner_dim reduce_dim outer_dim (Suc i)
             (ExecImpl_reduce md inp input_ptr_i output_ptr_i reduce_dim outer_dim 1 (workspace', out'))
      else (workspace, out))"
  by pat_completeness auto
termination
  by (relation "measure (\<lambda>(t, md, inp, input_byte_size, inner_dim, reduce_dim, outer_dim, i, s). inner_dim - i)") auto

declare ExecImpl_inner.simps [simp del]

text \<open>
  The input and workspace pointers have element type \<^verbatim>\<open>T\<close>, so the byte count of the
  \<^verbatim>\<open>memcpy\<close> covers \<open>outer_dim * input_byte_size div sizeof(T)\<close> elements; the output pointer
  is a \<^verbatim>\<open>float *\<close>. A loop whose \<^verbatim>\<open>int\<close> bound is negative does not run: the bounds are
  passed on as \<open>nat\<close>.
\<close>

definition ExecImpl ::
  "T \<Rightarrow> int \<Rightarrow> ('a::linorder) Blob \<Rightarrow> 'a cell Blob \<Rightarrow> (nat \<Rightarrow> 'a) \<Rightarrow> int \<Rightarrow> int \<Rightarrow> int \<Rightarrow>
   'a Run" where
  "ExecImpl t md input output workspace inner_dim reduce_dim outer_dim =
     (let input_byte_size = GetBytesSize (data_type input);
          (workspace', out') =
             ExecImpl_inner t md (base input) input_byte_size
               (nat inner_dim) (nat reduce_dim) (nat outer_dim) 0 (workspace, base output)
      in \<lparr>status = TNN_OK, out_base = out', out_elem = Some T_float, workspace_bytes = None,
          extents = Some (inner_dim, reduce_dim, outer_dim)\<rparr>)"

subsection \<open>\<^verbatim>\<open>CompareC4\<close>: the horizontal compare across lanes\<close>

text \<open>
  \<^verbatim>\<open>guard_index[c] * 4 + c\<close> is float arithmetic: the \<^verbatim>\<open>int\<close> operands are converted, the
  product and the sum are rounded.
\<close>

definition composite :: "nat Float4 \<Rightarrow> nat \<Rightarrow> nat" where
  "composite guard_index c = f32_add (f32_mul (lane guard_index c) (f32 4)) (f32 c)"

function CompareC4 ::
  "int \<Rightarrow> ('a::linorder) Float4 \<Rightarrow> nat Float4 \<Rightarrow> nat \<Rightarrow> nat \<Rightarrow> 'a \<times> nat \<Rightarrow> 'a \<times> nat" where
  "CompareC4 md guard_value guard_index c end (value_final, index_final) =
     (if c < end then
        CompareC4 md guard_value guard_index (Suc c) end
          (if md = 0 then
             (if lane guard_value c < value_final then
                (lane guard_value c, composite guard_index c)
              else if lane guard_value c = value_final \<and>
                      composite guard_index c < index_final then
                (value_final, composite guard_index c)
              else (value_final, index_final))
           else
             (if lane guard_value c > value_final then
                (lane guard_value c, composite guard_index c)
              else if lane guard_value c = value_final \<and>
                      composite guard_index c < index_final then
                (value_final, composite guard_index c)
              else (value_final, index_final)))
      else (value_final, index_final))"
  by pat_completeness auto
termination
  by (relation "measure (\<lambda>(md, guard_value, guard_index, c, end, s). end - c)") auto

declare CompareC4.simps [simp del]

subsection \<open>\<^verbatim>\<open>ExecDimC\<close>: the channel axis\<close>

text \<open>
  The value of \<^verbatim>\<open>index_final\<close> after the two calls of \<^verbatim>\<open>CompareC4\<close>, from the guards the
  macro leaves.
\<close>

definition index_final_of ::
  "int \<Rightarrow> (nat \<Rightarrow> 'a::linorder) \<Rightarrow> nat \<Rightarrow> nat \<Rightarrow> nat \<Rightarrow> nat \<Rightarrow> nat Float4 \<times> 'a Float4 \<Rightarrow> nat" where
  "index_final_of md inp input_ptr_o reduce_dim_c4 reduce_dim_r4 outer_dim guards =
     (let guard_index = fst guards;
          guard_value = snd guards;
          value_final = lane guard_value 0;
          index_final = f32_mul (lane guard_index 0) (f32 4);
          final1 = (if reduce_dim_c4 \<noteq> 0
                    then CompareC4 md guard_value guard_index 1 4 (value_final, index_final)
                    else (value_final, index_final));
          final2 = (if reduce_dim_r4 \<noteq> 0
                    then let input_ptr_r = input_ptr_o + reduce_dim_c4 * outer_dim;
                             cur_index = Float4_of_int reduce_dim_c4;
                             cur_value = Float4_load inp input_ptr_r
                         in CompareC4 md cur_value cur_index 0 reduce_dim_r4 final1
                    else final1)
      in snd final2)"

text \<open>The body of the loop over \<^verbatim>\<open>o\<close>: one group of four output lanes.\<close>

definition ExecDimC_body ::
  "T \<Rightarrow> int \<Rightarrow> (nat \<Rightarrow> 'a::linorder) \<Rightarrow> (nat \<Rightarrow> 'a cell) \<Rightarrow> nat \<Rightarrow> nat \<Rightarrow> nat \<Rightarrow> nat \<Rightarrow> nat \<Rightarrow>
   (nat \<Rightarrow> 'a cell)" where
  "ExecDimC_body t md inp out input_ptr_o output_ptr_o reduce_dim_c4 reduce_dim_r4 outer_dim =
     (let (out1, guard_index, guard_value) =
             ExecWithoutWorkspace t inp out input_ptr_o output_ptr_o outer_dim reduce_dim_c4 md;
          index_final = index_final_of md inp input_ptr_o reduce_dim_c4 reduce_dim_r4 outer_dim
                          (guard_index, guard_value);
          result = set_lane (Float4_of_int 0) index_final 0
      in Float4_save_index t out1 output_ptr_o result)"

function ExecDimC_outer ::
  "T \<Rightarrow> int \<Rightarrow> (nat \<Rightarrow> 'a::linorder) \<Rightarrow> nat \<Rightarrow> nat \<Rightarrow> nat \<Rightarrow> nat \<Rightarrow> nat \<Rightarrow> nat \<Rightarrow>
   (nat \<Rightarrow> 'a cell) \<Rightarrow> (nat \<Rightarrow> 'a cell)" where
  "ExecDimC_outer t md inp input_ptr_i output_ptr_i reduce_dim_c4 reduce_dim_r4 outer_dim ou out =
     (if ou < outer_dim then
        let input_ptr_o = input_ptr_i + ou;
            output_ptr_o = output_ptr_i + ou
        in ExecDimC_outer t md inp input_ptr_i output_ptr_i reduce_dim_c4 reduce_dim_r4 outer_dim (ou + 4)
             (ExecDimC_body t md inp out input_ptr_o output_ptr_o reduce_dim_c4 reduce_dim_r4 outer_dim)
      else out)"
  by pat_completeness auto
termination
  by (relation "measure (\<lambda>(t, md, inp, input_ptr_i, output_ptr_i, reduce_dim_c4, reduce_dim_r4, outer_dim, ou, out). outer_dim - ou)") auto

declare ExecDimC_outer.simps [simp del]

function ExecDimC_inner ::
  "T \<Rightarrow> int \<Rightarrow> (nat \<Rightarrow> 'a::linorder) \<Rightarrow> nat \<Rightarrow> nat \<Rightarrow> nat \<Rightarrow> nat \<Rightarrow> nat \<Rightarrow> nat \<Rightarrow>
   (nat \<Rightarrow> 'a cell) \<Rightarrow> (nat \<Rightarrow> 'a cell)" where
  "ExecDimC_inner t md inp inner_dim reduce_dim reduce_dim_c4 reduce_dim_r4 outer_dim i out =
     (if i < inner_dim then
        let input_ptr_i = i * reduce_dim * outer_dim;
            output_ptr_i = i * outer_dim
        in ExecDimC_inner t md inp inner_dim reduce_dim reduce_dim_c4 reduce_dim_r4 outer_dim (Suc i)
             (ExecDimC_outer t md inp input_ptr_i output_ptr_i reduce_dim_c4 reduce_dim_r4 outer_dim 0 out)
      else out)"
  by pat_completeness auto
termination
  by (relation "measure (\<lambda>(t, md, inp, inner_dim, reduce_dim, reduce_dim_c4, reduce_dim_r4, outer_dim, i, out). inner_dim - i)") auto

declare ExecDimC_inner.simps [simp del]

text \<open>
  Both the input and the output handle are cast to \<^verbatim>\<open>T *\<close>. \<^verbatim>\<open>outer_dim\<close> is the \<^verbatim>\<open>int\<close>
  product \<^verbatim>\<open>input_dims[2] * input_dims[3] * 4\<close>.
\<close>

definition ExecDimC ::
  "T \<Rightarrow> int \<Rightarrow> ('a::linorder) Blob \<Rightarrow> 'a cell Blob \<Rightarrow> 'a Run" where
  "ExecDimC t md input output =
     (let input_dims = dims input;
          inner_dim = int (dim0 input_dims);
          reduce_dim = int (UP_DIV (dim1 input_dims) 4);
          reduce_dim_r4 = int (dim1 input_dims mod 4);
          reduce_dim_c4 = (if reduce_dim_r4 = 0 then reduce_dim else reduce_dim - 1);
          outer_dim = int32 (int32 (int (dim2 input_dims) * int (dim3 input_dims)) * 4)
      in \<lparr>status = TNN_OK,
          out_base = ExecDimC_inner t md (base input) (nat inner_dim) (nat reduce_dim)
                       (nat reduce_dim_c4) (nat reduce_dim_r4) (nat outer_dim) 0 (base output),
          out_elem = Some t, workspace_bytes = None,
          extents = Some (inner_dim, reduce_dim, outer_dim)\<rparr>)"

subsection \<open>\<^verbatim>\<open>ExecDimW\<close>: the width axis\<close>

function ExecDimW_inner ::
  "T \<Rightarrow> int \<Rightarrow> (nat \<Rightarrow> 'a::linorder) \<Rightarrow> nat \<Rightarrow> nat \<Rightarrow> nat \<Rightarrow> nat \<Rightarrow> (nat \<Rightarrow> 'a cell) \<Rightarrow> (nat \<Rightarrow> 'a cell)" where
  "ExecDimW_inner t md inp inner_dim reduce_dim outer_dim i out =
     (if i < inner_dim then
        let input_ptr_i = i * reduce_dim * outer_dim;
            output_ptr_i = i * outer_dim
        in ExecDimW_inner t md inp inner_dim reduce_dim outer_dim (Suc i)
             (fst (ExecWithoutWorkspace t inp out input_ptr_i output_ptr_i outer_dim reduce_dim md))
      else out)"
  by pat_completeness auto
termination
  by (relation "measure (\<lambda>(t, md, inp, inner_dim, reduce_dim, outer_dim, i, out). inner_dim - i)") auto

declare ExecDimW_inner.simps [simp del]

text \<open>
  \<^verbatim>\<open>inner_dim\<close> is the \<^verbatim>\<open>int\<close> product \<^verbatim>\<open>input_dims[0] * UP_DIV(input_dims[1], 4) * input_dims[2]\<close>.
\<close>

definition ExecDimW ::
  "T \<Rightarrow> int \<Rightarrow> ('a::linorder) Blob \<Rightarrow> 'a cell Blob \<Rightarrow> 'a Run" where
  "ExecDimW t md input output =
     (let input_dims = dims input;
          inner_dim = int32 (int32 (int (dim0 input_dims) * int (UP_DIV (dim1 input_dims) 4)) *
                             int (dim2 input_dims));
          reduce_dim = int (dim3 input_dims);
          outer_dim = 4
      in \<lparr>status = TNN_OK,
          out_base = ExecDimW_inner t md (base input) (nat inner_dim) (nat reduce_dim) (nat outer_dim) 0
                       (base output),
          out_elem = Some t, workspace_bytes = None,
          extents = Some (inner_dim, reduce_dim, outer_dim)\<rparr>)"

subsection \<open>The dispatcher \<^verbatim>\<open>Exec\<close> and \<^verbatim>\<open>DoForward\<close>\<close>

text \<open>
  \<^verbatim>\<open>ExecWithWorkspace\<close>: the size asked of \<^verbatim>\<open>GetSharedWorkSpace\<close> is recorded in the run; the
  region it returns is the parameter \<open>workspace\<close>, whose contents are arbitrary.
\<close>

definition ExecWithWorkspace ::
  "T \<Rightarrow> ArgMaxOrMinLayerParam \<Rightarrow> ('a::linorder) Blob \<Rightarrow> 'a cell Blob \<Rightarrow> (nat \<Rightarrow> 'a) \<Rightarrow>
   int \<Rightarrow> int \<Rightarrow> int \<Rightarrow> int \<Rightarrow> 'a Run" where
  "ExecWithWorkspace t param input output workspace input_byte_size inner_dim reduce_dim outer_dim =
     (let size_in_bytes = int32 (outer_dim * input_byte_size);
          run = (if mode param = 0
                 then ExecImpl t 0 input output workspace inner_dim reduce_dim outer_dim
                 else ExecImpl t 1 input output workspace inner_dim reduce_dim outer_dim)
      in run\<lparr>workspace_bytes := Some size_in_bytes\<rparr>)"

definition Exec ::
  "T \<Rightarrow> ArgMaxOrMinLayerParam \<Rightarrow> ('a::linorder) Blob \<Rightarrow> 'a cell Blob \<Rightarrow> (nat \<Rightarrow> 'a) \<Rightarrow> 'a Run" where
  "Exec t param input output workspace =
     (let dims_input = dims input;
          in' = int (dim0 dims_input);
          ic = int (dim1 dims_input);
          ic_r4 = int (ROUND_UP (dim1 dims_input) 4);
          ih = int (dim2 dims_input);
          iw = int (dim3 dims_input);
          input_byte_size = int (GetBytesSize (data_type input))
      in if axis param = 0 then
           ExecWithWorkspace t param input output workspace input_byte_size
             1 in' (int32 (int32 (ic_r4 * ih) * iw))
         else if axis param = 1 then
           (if mode param = 0 then ExecDimC t 0 input output else ExecDimC t 1 input output)
         else if axis param = 2 then
           ExecWithWorkspace t param input output workspace input_byte_size
             (int_div (int32 (in' * ic_r4)) 4) ih (int32 (iw * 4))
         else if axis param = 3 then
           (if mode param = 0 then ExecDimW t 0 input output else ExecDimW t 1 input output)
         else
           \<lparr>status = TNNERR_PARAM_ERR ''argmax or argmin axis not support'',
            out_base = base output, out_elem = None, workspace_bytes = None, extents = None\<rparr>)"

definition DoForward ::
  "ArgMaxOrMinLayerParam \<Rightarrow> ('a::linorder) Blob \<Rightarrow> 'a cell Blob \<Rightarrow> (nat \<Rightarrow> 'a) \<Rightarrow> 'a Run" where
  "DoForward param input output workspace =
     (let out_data_type = data_type output
      in if out_data_type \<noteq> DATA_TYPE_FLOAT then
           \<lparr>status = TNNERR_MODEL_ERR ''Error: layer acc dont support datatype'',
            out_base = base output, out_elem = None, workspace_bytes = None, extents = None\<rparr>
         else
           let in_data_type = data_type input
           in if in_data_type = DATA_TYPE_FLOAT then Exec T_float param input output workspace
              else if in_data_type = DATA_TYPE_BFP16 then Exec T_bfp16_t param input output workspace
              else \<lparr>status = TNNERR_MODEL_ERR ''Error: layer acc dont support datatype'',
                    out_base = base output, out_elem = None, workspace_bytes = None, extents = None\<rparr>)"

subsection \<open>The reference: a naive linear scan\<close>

text \<open>
  The spec's words, section 4.5: for \<open>mode = min\<close> a candidate is strictly better than the
  running extreme iff \<open>candidate < running\<close>, for \<open>mode = max\<close> iff \<open>candidate > running\<close>.
\<close>

definition better :: "int \<Rightarrow> ('a::linorder) \<Rightarrow> 'a \<Rightarrow> bool" where
  "better md candidate running = (if md = 0 then candidate < running else candidate > running)"

text \<open>
  The naive scan over \<open>f 0, \<dots>, f (n - 1)\<close>: it walks the positions in increasing order and
  moves to a position only when its value is strictly better than the best so far.
\<close>

fun naive_scan :: "int \<Rightarrow> (nat \<Rightarrow> 'a::linorder) \<Rightarrow> nat \<Rightarrow> nat" where
  "naive_scan md f 0 = 0"
| "naive_scan md f (Suc n) =
     (let best = naive_scan md f n in if better md (f n) (f best) then n else best)"

text \<open>
  \<open>k\<close> is the position of the extreme value of \<open>f\<close> below \<open>n\<close>, ties resolved to the smallest
  index: nothing is strictly better than \<open>f k\<close>, and no earlier position holds the same value.
\<close>

definition first_extreme :: "int \<Rightarrow> (nat \<Rightarrow> 'a::linorder) \<Rightarrow> nat \<Rightarrow> nat \<Rightarrow> bool" where
  "first_extreme md f n k \<longleftrightarrow>
     k < n \<and> (\<forall>j<n. \<not> better md (f j) (f k)) \<and> (\<forall>j<k. f j \<noteq> f k)"

text \<open>The same over a set of candidate positions, for the lanes of the channel axis.\<close>

definition best_of :: "int \<Rightarrow> (nat \<Rightarrow> 'a::linorder) \<Rightarrow> nat set \<Rightarrow> nat \<Rightarrow> bool" where
  "best_of md f S k \<longleftrightarrow> k \<in> S \<and> (\<forall>j\<in>S. \<not> better md (f j) (f k) \<and> (f j = f k \<longrightarrow> k \<le> j))"

subsection \<open>The index of one channel group\<close>

text \<open>
  What the channel strategy writes into lane 0 of the group whose input starts at
  \<open>input_ptr_o\<close>: \<^verbatim>\<open>index_final\<close>, from the guards the loop of the macro reaches.
\<close>

definition channel_index ::
  "int \<Rightarrow> (nat \<Rightarrow> 'a::linorder) \<Rightarrow> nat \<Rightarrow> nat \<Rightarrow> nat \<Rightarrow> nat \<Rightarrow> nat" where
  "channel_index md inp input_ptr_o reduce_dim_c4 reduce_dim_r4 outer_dim =
     index_final_of md inp input_ptr_o reduce_dim_c4 reduce_dim_r4 outer_dim
       (ExecWithoutWorkspace_loop md inp input_ptr_o outer_dim reduce_dim_c4 1
          (Float4_of_int 0, Float4_load inp input_ptr_o))"

subsection \<open>Tensor positions\<close>

text \<open>
  Modelled from the spec: the packed layout is fixed by the runtime, outside the sources.
  Memory is contiguous in the nested order N, C_packed, H, W, with the channel extent padded
  up to a multiple of the lane width 4: the element \<open>(n, c, h, w)\<close> lies in lane \<open>c mod 4\<close> of
  the group \<open>c div 4\<close>. The strides of the kernel are the ones of this layout.
\<close>

definition offset :: "DimsVector \<Rightarrow> nat \<Rightarrow> nat \<Rightarrow> nat \<Rightarrow> nat \<Rightarrow> nat" where
  "offset d n c h w =
     (((n * UP_DIV (dim1 d) 4 + c div 4) * dim2 d + h) * dim3 d + w) * 4 + c mod 4"

text \<open>The padded element count of a tensor.\<close>

definition elems :: "DimsVector \<Rightarrow> nat" where
  "elems d = dim0 d * ROUND_UP (dim1 d) 4 * dim2 d * dim3 d"

text \<open>The extent of the reduced axis, and the shape of the output: that extent becomes 1.\<close>

definition extent :: "int \<Rightarrow> DimsVector \<Rightarrow> nat" where
  "extent ax d = (if ax = 0 then dim0 d else if ax = 1 then dim1 d
                  else if ax = 2 then dim2 d else dim3 d)"

definition reduced :: "int \<Rightarrow> DimsVector \<Rightarrow> DimsVector" where
  "reduced ax d = (if ax = 0 then d\<lparr>dim0 := 1\<rparr> else if ax = 1 then d\<lparr>dim1 := 1\<rparr>
                   else if ax = 2 then d\<lparr>dim2 := 1\<rparr> else d\<lparr>dim3 := 1\<rparr>)"

text \<open>
  The input element at coordinate \<open>r\<close> of the reduced axis, the other coordinates taken
  from \<open>(n, c, h, w)\<close>; and the output position that belongs to \<open>(n, c, h, w)\<close>.
\<close>

definition in_pos :: "int \<Rightarrow> DimsVector \<Rightarrow> nat \<Rightarrow> nat \<Rightarrow> nat \<Rightarrow> nat \<Rightarrow> nat \<Rightarrow> nat" where
  "in_pos ax d n c h w r =
     (if ax = 0 then offset d r c h w else if ax = 1 then offset d n r h w
      else if ax = 2 then offset d n c r w else offset d n c h r)"

definition out_pos :: "int \<Rightarrow> DimsVector \<Rightarrow> nat \<Rightarrow> nat \<Rightarrow> nat \<Rightarrow> nat \<Rightarrow> nat" where
  "out_pos ax d n c h w =
     (if ax = 0 then offset (reduced ax d) 0 c h w
      else if ax = 1 then offset (reduced ax d) n 0 h w
      else if ax = 2 then offset (reduced ax d) n c 0 w
      else offset (reduced ax d) n c h 0)"

text \<open>
  The index a naive linear scan along the reduced axis reports for the output position
  that belongs to \<open>(n, c, h, w)\<close>.
\<close>

definition naive_index ::
  "int \<Rightarrow> int \<Rightarrow> ('a::linorder) Blob \<Rightarrow> nat \<Rightarrow> nat \<Rightarrow> nat \<Rightarrow> nat \<Rightarrow> nat" where
  "naive_index ax md input n c h w =
     naive_scan md (\<lambda>r. base input (in_pos ax (dims input) n c h w r)) (extent ax (dims input))"

text \<open>The element types \<^verbatim>\<open>DoForward\<close> accepts.\<close>

definition supported :: "'a Blob \<Rightarrow> 'b Blob \<Rightarrow> bool" where
  "supported input output \<longleftrightarrow>
     data_type output = DATA_TYPE_FLOAT \<and>
     (data_type input = DATA_TYPE_FLOAT \<or> data_type input = DATA_TYPE_BFP16)"

text \<open>
  The calls whose output handle is cast to \<^verbatim>\<open>float *\<close>: float input on any axis, and any
  input on the batch and height axes, which go through \<^verbatim>\<open>ExecImpl\<close>.
\<close>

definition float_store :: "ArgMaxOrMinLayerParam \<Rightarrow> 'a Blob \<Rightarrow> bool" where
  "float_store param input \<longleftrightarrow>
     data_type input = DATA_TYPE_FLOAT \<or> axis param = 0 \<or> axis param = 2"

text \<open>
  The tensors on which no \<^verbatim>\<open>int\<close> product of the kernel leaves the 32-bit range: no extent
  is 0, the padded element count is below \<open>2^31\<close>, and so is the byte size of the workspace
  on the two axes that ask for one.
\<close>

definition workspace_size :: "int \<Rightarrow> 'a Blob \<Rightarrow> nat" where
  "workspace_size ax input =
     (if ax = 0 then ROUND_UP (dim1 (dims input)) 4 * dim2 (dims input) * dim3 (dims input)
      else dim3 (dims input) * 4) * GetBytesSize (data_type input)"

definition fits :: "int \<Rightarrow> 'a Blob \<Rightarrow> bool" where
  "fits ax input \<longleftrightarrow>
     0 < dim0 (dims input) \<and> 0 < dim1 (dims input) \<and>
     0 < dim2 (dims input) \<and> 0 < dim3 (dims input) \<and>
     elems (dims input) < 2 ^ 31 \<and>
     (if ax = 0 \<or> ax = 2 then workspace_size ax input < 2 ^ 31 else True)"

text \<open>
  The reduced axes all of whose indices \<open>0, \<dots>, extent - 1\<close> are 32-bit floats: \<open>2^24\<close> is the
  last natural number before the first gap.
\<close>

definition exact_indices :: "int \<Rightarrow> DimsVector \<Rightarrow> bool" where
  "exact_indices ax d \<longleftrightarrow> extent ax d \<le> 2 ^ 24 + 1"

subsection \<open>The scenarios of the spec and other tensors\<close>

text \<open>
  Scenario A: shape (1, 4, 1, 3), every channel holds \<open>[2, 5, 5]\<close> along the width.
  Scenario B: shape (3, 4, 1, 1), every channel holds \<open>[3, 1, 1]\<close> along the batch.
  Scenario C: shape (1, 5, 1, 1), the channels hold \<open>[1, 2, 3, 4, 5]\<close>; the three padding lanes
  of the second group hold 9.
\<close>

definition scenario_A :: "int Blob" where
  "scenario_A = \<lparr>data_type = DATA_TYPE_FLOAT, dims = \<lparr>dim0 = 1, dim1 = 4, dim2 = 1, dim3 = 3\<rparr>,
                  base = (\<lambda>a. if a < 4 then 2 else 5)\<rparr>"

definition scenario_B :: "int Blob" where
  "scenario_B = \<lparr>data_type = DATA_TYPE_FLOAT, dims = \<lparr>dim0 = 3, dim1 = 4, dim2 = 1, dim3 = 1\<rparr>,
                  base = (\<lambda>a. if a < 4 then 3 else 1)\<rparr>"

definition scenario_C :: "int Blob" where
  "scenario_C = \<lparr>data_type = DATA_TYPE_FLOAT, dims = \<lparr>dim0 = 1, dim1 = 5, dim2 = 1, dim3 = 1\<rparr>,
                  base = (\<lambda>a. if a < 5 then int a + 1 else 9)\<rparr>"

text \<open>Shape (1, 3, 1, 1): the channels hold \<open>[1, 2, 3]\<close>, the padding lane holds 9.\<close>

definition three_channels :: "int Blob" where
  "three_channels = \<lparr>data_type = DATA_TYPE_FLOAT, dims = \<lparr>dim0 = 1, dim1 = 3, dim2 = 1, dim3 = 1\<rparr>,
                      base = (\<lambda>a. if a < 3 then int a + 1 else 9)\<rparr>"

text \<open>
  Shape (1, 8, 1, 1): the channels hold \<open>[1, 5, 0, 0, 5, 1, 0, 0]\<close>, so the maximum 5 sits in
  channels 1 and 4.
\<close>

definition tie_channels :: "int Blob" where
  "tie_channels = \<lparr>data_type = DATA_TYPE_FLOAT, dims = \<lparr>dim0 = 1, dim1 = 8, dim2 = 1, dim3 = 1\<rparr>,
                    base = (\<lambda>a. if a = 0 \<or> a = 5 then 1 else if a = 1 \<or> a = 4 then 5 else 0)\<rparr>"

text \<open>
  A tensor of the given shape that holds 1 at the listed offsets and 0 elsewhere.
\<close>

definition peaks :: "nat \<Rightarrow> nat \<Rightarrow> nat \<Rightarrow> nat \<Rightarrow> nat list \<Rightarrow> int Blob" where
  "peaks n c h w ps =
     \<lparr>data_type = DATA_TYPE_FLOAT, dims = \<lparr>dim0 = n, dim1 = c, dim2 = h, dim3 = w\<rparr>,
      base = (\<lambda>a. if a \<in> set ps then 1 else 0)\<rparr>"

text \<open>An output blob of the given element type, and a workspace, both zeroed.\<close>

definition blank :: "DataType \<Rightarrow> int cell Blob" where
  "blank ty = \<lparr>data_type = ty, dims = \<lparr>dim0 = 1, dim1 = 1, dim2 = 1, dim3 = 1\<rparr>, base = (\<lambda>a. Keep 0)\<rparr>"

definition scratch0 :: "nat \<Rightarrow> int" where
  "scratch0 = (\<lambda>a. 0)"

section \<open>Correctness of the loops\<close>

subsection \<open>Lanes\<close>


lemma lane_cases: "k < 4 \<Longrightarrow> k = 0 \<or> k = 1 \<or> k = 2 \<or> k = (3::nat)"
  by arith

lemma lane_splat [simp]: "lane (Float4_splat x) k = x"
  by (simp add: Float4_splat_def)

lemma lane_map [simp]: "lane (map_Float4 f v) k = f (lane v k)"
  by (cases v) simp

lemma lane_of_int [simp]: "lane (Float4_of_int r) k = f32 r"
  by (simp add: Float4_of_int_def)

lemma bitlen_0 [simp]: "bitlen 0 = 0"
  by (simp add: bitlen.simps)

lemma f32_0 [simp]: "f32 0 = 0"
  by (simp add: f32_def)

lemma lane_load: "k < 4 \<Longrightarrow> lane (Float4_load m p) k = m (p + k)"
  by (auto simp: Float4_load_def dest!: lane_cases)

lemma save_apply:
  "Float4_save m p v a = (if p \<le> a \<and> a < p + 4 then lane v (a - p) else m a)"
proof (cases "p \<le> a \<and> a < p + 4")
  case True
  then have "a = p \<or> a = p + 1 \<or> a = p + 2 \<or> a = p + 3" by arith
  then show ?thesis by (auto simp: Float4_save_def)
next
  case False
  then show ?thesis by (auto simp: Float4_save_def)
qed

lemma save_index_apply:
  "Float4_save_index t m p v a = (if p \<le> a \<and> a < p + 4 then stored t (lane v (a - p)) else m a)"
  by (simp add: Float4_save_index_def save_apply)

lemma lane_compare_round_index:
  assumes "k < 4"
  shows "lane (fst (compare_round md cv ci gv gi)) k =
     (if better md (lane cv k) (lane gv k) then lane ci k else lane gi k)"
  using lane_cases[OF assms]
  by (elim disjE) (simp_all add: compare_round_def better_def bsl_clt_def bsl_cgt_def)

lemma lane_compare_round_value:
  assumes "k < 4"
  shows "lane (snd (compare_round md cv ci gv gi)) k =
     (if better md (lane cv k) (lane gv k) then lane cv k else lane gv k)"
  using lane_cases[OF assms]
  by (elim disjE) (auto simp add: compare_round_def better_def Float4_min_def Float4_max_def min_def max_def)

lemma naive_scan_1 [simp]: "naive_scan md f (Suc 0) = 0"
  by (simp add: better_def)

lemma naive_scan_mode: "md \<noteq> 0 \<Longrightarrow> naive_scan md f n = naive_scan 1 f n"
  by (induction n) (simp_all add: better_def Let_def)

lemma loop_lane:
  assumes "k < 4" "r \<le> n"
    and "lane gi k = f32 (naive_scan md (\<lambda>r. inp (b + r * od + k)) r)"
    and "lane gv k = inp (b + naive_scan md (\<lambda>r. inp (b + r * od + k)) r * od + k)"
  shows "lane (fst (ExecWithoutWorkspace_loop md inp b od n r (gi, gv))) k =
           f32 (naive_scan md (\<lambda>r. inp (b + r * od + k)) n) \<and>
         lane (snd (ExecWithoutWorkspace_loop md inp b od n r (gi, gv))) k =
           inp (b + naive_scan md (\<lambda>r. inp (b + r * od + k)) n * od + k)"
  using assms
proof (induction md inp b od n r "(gi, gv)" arbitrary: gi gv rule: ExecWithoutWorkspace_loop.induct)
  case (1 md inp b od n r gi gv)
  show ?case
  proof (cases "r < n")
    case False
    with 1 show ?thesis by (simp add: ExecWithoutWorkspace_loop.simps)
  next
    case True
    let ?cv = "Float4_load inp (b + r * od)"
    let ?ci = "Float4_of_int r"
    obtain gi' gv' where cr: "compare_round md ?cv ?ci gv gi = (gi', gv')"
      by (cases "compare_round md ?cv ?ci gv gi")
    have gi': "lane gi' k = f32 (naive_scan md (\<lambda>r. inp (b + r * od + k)) (Suc r))"
      using lane_compare_round_index[OF \<open>k < 4\<close>, of md ?cv ?ci gv gi] cr 1(4,5) \<open>k < 4\<close>
      by (simp add: lane_load Let_def)
    have gv': "lane gv' k = inp (b + naive_scan md (\<lambda>r. inp (b + r * od + k)) (Suc r) * od + k)"
      using lane_compare_round_value[OF \<open>k < 4\<close>, of md ?cv ?ci gv gi] cr 1(4,5) \<open>k < 4\<close>
      by (simp add: lane_load Let_def)
    have "Suc r \<le> n" using True by simp
    from 1(1)[OF True refl refl refl cr \<open>k < 4\<close> this gi' gv']
    show ?thesis using True cr
      by (subst (1 2) ExecWithoutWorkspace_loop.simps) (simp add: Let_def)
  qed
qed

subsection \<open>The macro and the width axis\<close>


lemma macro_lanes:
  assumes "k < 4"
  shows "lane (fst (snd (ExecWithoutWorkspace t inp out b ob od n md))) k =
           f32 (naive_scan md (\<lambda>r. inp (b + r * od + k)) n)"
    and "lane (snd (snd (ExecWithoutWorkspace t inp out b ob od n md))) k =
           inp (b + naive_scan md (\<lambda>r. inp (b + r * od + k)) n * od + k)"
    and "fst (ExecWithoutWorkspace t inp out b ob od n md) =
           Float4_save_index t out ob (fst (snd (ExecWithoutWorkspace t inp out b ob od n md)))"
proof -
  let ?f = "\<lambda>r. inp (b + r * od + k)"
  let ?L = "ExecWithoutWorkspace_loop md inp b od n 1 (Float4_of_int 0, Float4_load inp b)"
  have L: "lane (fst ?L) k = f32 (naive_scan md ?f n) \<and>
           lane (snd ?L) k = inp (b + naive_scan md ?f n * od + k)"
  proof (cases "n = 0")
    case True
    then show ?thesis using assms
      by (simp add: ExecWithoutWorkspace_loop.simps lane_load)
  next
    case False
    then have "1 \<le> n" by simp
    from loop_lane[OF assms this, of "Float4_of_int 0" md inp b od "Float4_load inp b"]
    show ?thesis using assms by (simp add: lane_load)
  qed
  show "lane (fst (snd (ExecWithoutWorkspace t inp out b ob od n md))) k =
           f32 (naive_scan md ?f n)"
    using L by (simp add: ExecWithoutWorkspace_def split_beta)
  show "lane (snd (snd (ExecWithoutWorkspace t inp out b ob od n md))) k =
           inp (b + naive_scan md ?f n * od + k)"
    using L by (simp add: ExecWithoutWorkspace_def split_beta)
  show "fst (ExecWithoutWorkspace t inp out b ob od n md) =
           Float4_save_index t out ob (fst (snd (ExecWithoutWorkspace t inp out b ob od n md)))"
    by (simp add: ExecWithoutWorkspace_def split_beta)
qed

lemma ExecDimW_inner_apply:
  "ExecDimW_inner t md inp inner n 4 i out a =
     (if i * 4 \<le> a \<and> a < inner * 4
      then stored t (f32 (naive_scan md (\<lambda>r. inp (a div 4 * n * 4 + r * 4 + a mod 4)) n))
      else out a)"
proof (induction t md inp inner n "4::nat" i out rule: ExecDimW_inner.induct)
  case (1 t md inp inner n i out)
  show ?case
  proof (cases "i < inner")
    case False
    then show ?thesis by (auto simp add: ExecDimW_inner.simps)
  next
    case True
    let ?M = "ExecWithoutWorkspace t inp out (i * n * 4) (i * 4) 4 n md"
    have step: "ExecDimW_inner t md inp inner n 4 i out = ExecDimW_inner t md inp inner n 4 (Suc i) (fst ?M)"
      using True by (subst ExecDimW_inner.simps) (simp add: Let_def)
    have IH: "ExecDimW_inner t md inp inner n 4 (Suc i) (fst ?M) a =
       (if Suc i * 4 \<le> a \<and> a < inner * 4
        then stored t (f32 (naive_scan md (\<lambda>r. inp (a div 4 * n * 4 + r * 4 + a mod 4)) n))
        else fst ?M a)"
      using 1[OF True refl refl] .
    show ?thesis
    proof (cases "i * 4 \<le> a \<and> a < i * 4 + 4")
      case False
      then have "fst ?M a = out a"
        by (auto simp add: macro_lanes(3)[of 0] save_index_apply)
      with False True show ?thesis unfolding step IH by auto
    next
      case in_group: True
      define k where "k = a - i * 4"
      have k: "k < 4" "a = i * 4 + k" using in_group by (auto simp: k_def)
      have dm: "a div 4 = i" "a mod 4 = k" using k by auto
      have "fst ?M a = stored t (lane (fst (snd ?M)) k)"
        using in_group by (simp add: macro_lanes(3)[of 0] save_index_apply k_def)
      also have "\<dots> = stored t (f32 (naive_scan md (\<lambda>r. inp (i * n * 4 + r * 4 + k)) n))"
        by (simp only: macro_lanes(1)[OF k(1)])
      finally have "fst ?M a = stored t (f32 (naive_scan md (\<lambda>r. inp (a div 4 * n * 4 + r * 4 + a mod 4)) n))"
        by (simp add: dm)
      moreover have "a < inner * 4" using True in_group by auto
      ultimately show ?thesis using in_group unfolding step IH by auto
    qed
  qed
qed

subsection \<open>The outer loop of ExecImpl\<close>


lemma dvd4_step: "4 dvd (od::nat) \<Longrightarrow> 4 dvd ou \<Longrightarrow> ou < od \<Longrightarrow> ou + 4 \<le> od"
  by presburger

lemma ExecImpl_outer_apply:
  assumes "4 dvd od" "4 dvd ou"
  shows "fst (ExecImpl_outer md inp ir oi (Float4_of_int x) od ou (ws, out)) j =
           (if ou \<le> j \<and> j < od \<and> better md (inp (ir + j)) (ws j) then inp (ir + j) else ws j)"
    and "snd (ExecImpl_outer md inp ir oi (Float4_of_int x) od ou (ws, out)) a =
           (if oi + ou \<le> a \<and> a < oi + od \<and> better md (inp (ir + (a - oi))) (ws (a - oi))
            then Idx (f32 x) else out a)"
  using assms
proof (induction md inp ir oi "Float4_of_int x" od ou "(ws, out)" arbitrary: ws out
       rule: ExecImpl_outer.induct)
  case (1 md inp ir oi od ou ws out)
  let ?gi = "Float4_load out (oi + ou)"
  let ?gv = "Float4_load ws ou"
  let ?cv = "Float4_load inp (ir + ou)"
  let ?ci = "Float4_of_int x"
  let ?cc = "map_Float4 Idx ?ci :: 'a cell Float4"
  obtain gi' gv' where cr: "compare_round md ?cv ?cc ?gv ?gi = (gi', gv')"
    by (cases "compare_round md ?cv ?cc ?gv ?gi")
  let ?out1 = "Float4_save out (oi + ou) gi'"
  let ?ws1 = "Float4_save ws ou gv'"
  have gi': "k < 4 \<Longrightarrow> lane gi' k =
      (if better md (inp (ir + ou + k)) (ws (ou + k)) then Idx (f32 x) else out (oi + ou + k))" for k
    using lane_compare_round_index[of k md ?cv ?cc ?gv ?gi] cr by (simp add: lane_load)
  have gv': "k < 4 \<Longrightarrow> lane gv' k =
      (if better md (inp (ir + ou + k)) (ws (ou + k)) then inp (ir + ou + k) else ws (ou + k))" for k
    using lane_compare_round_value[of k md ?cv ?cc ?gv ?gi] cr by (simp add: lane_load)
  {
    case 1
    show ?case
    proof (cases "ou < od")
      case False
      then show ?thesis by (auto simp add: ExecImpl_outer.simps)
    next
      case True
      have step: "ExecImpl_outer md inp ir oi ?ci od ou (ws, out) =
                  ExecImpl_outer md inp ir oi ?ci od (ou + 4) (?ws1, ?out1)"
        using True cr by (subst ExecImpl_outer.simps) (simp add: Let_def)
      have le: "ou + 4 \<le> od" using dvd4_step[OF "1.prems" True] .
      have d: "4 dvd ou + 4" using "1.prems"(2) by simp
      have IH: "fst (ExecImpl_outer md inp ir oi ?ci od (ou + 4) (?ws1, ?out1)) j =
           (if ou + 4 \<le> j \<and> j < od \<and> better md (inp (ir + j)) (?ws1 j) then inp (ir + j) else ?ws1 j)"
        using "1.hyps"(1)[OF True refl refl refl cr[symmetric] refl refl refl "1.prems"(1) d] .
      show ?thesis
      proof (cases "ou \<le> j \<and> j < ou + 4")
        case True
        then have "j - ou < 4" "ou + (j - ou) = j" by auto
        with gv'[of "j - ou"] True le show ?thesis
          unfolding step IH by (auto simp: save_apply add.assoc)
      next
        case False
        then show ?thesis unfolding step IH by (auto simp: save_apply)
      qed
    qed
  next
    case 2
    show ?case
    proof (cases "ou < od")
      case False
      then show ?thesis by (auto simp add: ExecImpl_outer.simps)
    next
      case True
      have step: "ExecImpl_outer md inp ir oi ?ci od ou (ws, out) =
                  ExecImpl_outer md inp ir oi ?ci od (ou + 4) (?ws1, ?out1)"
        using True cr by (subst ExecImpl_outer.simps) (simp add: Let_def)
      have le: "ou + 4 \<le> od" using dvd4_step[OF "2.prems" True] .
      have d: "4 dvd ou + 4" using "2.prems"(2) by simp
      have IH: "snd (ExecImpl_outer md inp ir oi ?ci od (ou + 4) (?ws1, ?out1)) a =
           (if oi + (ou + 4) \<le> a \<and> a < oi + od \<and> better md (inp (ir + (a - oi))) (?ws1 (a - oi))
            then Idx (f32 x) else ?out1 a)"
        using "1.hyps"(2)[OF True refl refl refl cr[symmetric] refl refl refl "2.prems"(1) d] .
      show ?thesis
      proof (cases "oi + ou \<le> a \<and> a < oi + ou + 4")
        case True
        then have "a - (oi + ou) < 4" "oi + ou + (a - (oi + ou)) = a" "ou + (a - (oi + ou)) = a - oi"
          by auto
        with gi'[of "a - (oi + ou)"] True le show ?thesis
          unfolding step IH by (auto simp: save_apply add.assoc)
      next
        case False
        then show ?thesis unfolding step IH by (auto simp: save_apply)
      qed
    qed
  }
qed

subsection \<open>The reduce and inner loops of ExecImpl\<close>


lemma flat_div: "(j::nat) < od \<Longrightarrow> (i * od + j) div od = i"
  by simp

lemma flat_mod: "(j::nat) < od \<Longrightarrow> (i * od + j) mod od = j"
  by simp

lemma slice_div_mod:
  assumes "i * od \<le> a" "a < i * od + (od::nat)"
  shows "a div od = i" "a mod od = a - i * od"
proof -
  have "a = i * od + (a - i * od)" "a - i * od < od" using assms by auto
  then show "a div od = i" using flat_div by metis
  from \<open>a = i * od + (a - i * od)\<close> \<open>a - i * od < od\<close> show "a mod od = a - i * od"
    using flat_mod by metis
qed

lemma ExecImpl_reduce_apply:
  assumes "4 dvd od" "r \<le> n"
    and "\<And>j. j < od \<Longrightarrow> ws j = inp (ii + naive_scan md (\<lambda>r. inp (ii + r * od + j)) r * od + j)"
    and "\<And>j. j < od \<Longrightarrow> out (oi + j) = Idx (f32 (naive_scan md (\<lambda>r. inp (ii + r * od + j)) r))"
  shows "snd (ExecImpl_reduce md inp ii oi n od r (ws, out)) a =
           (if oi \<le> a \<and> a < oi + od
            then Idx (f32 (naive_scan md (\<lambda>r. inp (ii + r * od + (a - oi))) n))
            else out a)"
  using assms
proof (induction md inp ii oi n od r "(ws, out)" arbitrary: ws out rule: ExecImpl_reduce.induct)
  case (1 md inp ii oi n od r ws out)
  show ?case
  proof (cases "r < n")
    case False
    with "1.prems" have "r = n" by simp
    with "1.prems"(4)[of "a - oi"] False show ?thesis
      by (auto simp: ExecImpl_reduce.simps)
  next
    case True
    let ?S = "ExecImpl_outer md inp (ii + r * od) oi (Float4_of_int r) od 0 (ws, out)"
    have step: "ExecImpl_reduce md inp ii oi n od r (ws, out) =
                ExecImpl_reduce md inp ii oi n od (Suc r) (fst ?S, snd ?S)"
      using True by (subst ExecImpl_reduce.simps) (simp add: Let_def)
    have ws': "fst ?S j = inp (ii + naive_scan md (\<lambda>r. inp (ii + r * od + j)) (Suc r) * od + j)"
      if "j < od" for j
      using that "1.prems"(3)[OF that]
      by (simp add: ExecImpl_outer_apply(1)[OF "1.prems"(1)] Let_def add.assoc)
    have out': "snd ?S (oi + j) = Idx (f32 (naive_scan md (\<lambda>r. inp (ii + r * od + j)) (Suc r)))"
      if "j < od" for j
      using that "1.prems"(3)[OF that] "1.prems"(4)[OF that]
      by (simp add: ExecImpl_outer_apply(2)[OF "1.prems"(1)] Let_def add.assoc)
    have "Suc r \<le> n" using True by simp
    from "1.hyps"[OF True refl refl prod.collapse[symmetric] "1.prems"(1) this ws' out']
    have IH: "snd (ExecImpl_reduce md inp ii oi n od (Suc r) (fst ?S, snd ?S)) a =
           (if oi \<le> a \<and> a < oi + od
            then Idx (f32 (naive_scan md (\<lambda>r. inp (ii + r * od + (a - oi))) n))
            else snd ?S a)"
      by simp
    show ?thesis unfolding step IH
      by (auto simp: ExecImpl_outer_apply(2)[OF "1.prems"(1)])
  qed
qed

lemma ExecImpl_inner_apply:
  assumes "4 dvd od" "od * ibs div sizeof_T t = od"
  shows "snd (ExecImpl_inner t md inp ibs inner n od i (ws, out)) a =
           (if i * od \<le> a \<and> a < inner * od
            then Idx (f32 (naive_scan md (\<lambda>r. inp (a div od * n * od + r * od + a mod od)) n))
            else out a)"
  using assms
proof (induction t md inp ibs inner n od i "(ws, out)" arbitrary: ws out rule: ExecImpl_inner.induct)
  case (1 t md inp ibs inner n od i ws out)
  show ?case
  proof (cases "i < inner")
    case False
    then have "inner \<le> i" by simp
    then have "inner * od \<le> i * od" by (rule mult_le_mono1)
    then have "\<not> (i * od \<le> a \<and> a < inner * od)" by linarith
    with False show ?thesis by (auto simp add: ExecImpl_inner.simps)
  next
    case True
    let ?ws1 = "memcpy ws 0 inp (i * n * od) od"
    let ?out1 = "memset0 out (i * od) od"
    let ?R = "ExecImpl_reduce md inp (i * n * od) (i * od) n od 1 (?ws1, ?out1)"
    have step: "ExecImpl_inner t md inp ibs inner n od i (ws, out) =
                ExecImpl_inner t md inp ibs inner n od (Suc i) (fst ?R, snd ?R)"
      using True "1.prems"(2) by (subst ExecImpl_inner.simps) (simp add: Let_def)
    have R: "snd ?R a =
           (if i * od \<le> a \<and> a < i * od + od
            then Idx (f32 (naive_scan md (\<lambda>r. inp (i * n * od + r * od + (a - i * od))) n))
            else ?out1 a)" for a
    proof (cases "n = 0")
      case True
      then show ?thesis
        by (simp add: ExecImpl_reduce.simps memset0_def)
    next
      case False
      then have "1 \<le> n" by simp
      show ?thesis
        by (rule ExecImpl_reduce_apply[OF "1.prems"(1) \<open>1 \<le> n\<close>])
           (simp_all add: memcpy_def memset0_def)
    qed
    from "1.hyps"[OF True refl refl refl refl prod.collapse[symmetric] "1.prems"]
    have IH: "snd (ExecImpl_inner t md inp ibs inner n od (Suc i) (fst ?R, snd ?R)) a =
           (if Suc i * od \<le> a \<and> a < inner * od
            then Idx (f32 (naive_scan md (\<lambda>r. inp (a div od * n * od + r * od + a mod od)) n))
            else snd ?R a)"
      by (simp add: "1.prems"(2))
    show ?thesis
    proof (cases "i * od \<le> a \<and> a < i * od + od")
      case in_slice: True
      then have dm: "a div od = i" "a mod od = a - i * od"
        by (simp_all add: slice_div_mod)
      have "Suc i * od \<le> inner * od" using True by (simp add: Suc_leI mult_le_mono1 del: mult_Suc)
      then have "a < inner * od" using in_slice by simp
      with in_slice show ?thesis unfolding step IH R by (simp add: dm)
    next
      case False
      then show ?thesis unfolding step IH R by (auto simp: memset0_def)
    qed
  qed
qed

subsection \<open>Positions of extreme values\<close>


lemma better_irrefl [simp]: "\<not> better md a a"
  by (simp add: better_def)

lemma better_trans: "better md a b \<Longrightarrow> better md b c \<Longrightarrow> better md a c"
  by (auto simp: better_def)

lemma better_asym: "better md a b \<Longrightarrow> \<not> better md b a"
  by (auto simp: better_def)

lemma better_total: "better md a b \<or> a = b \<or> better md b a"
  by (auto simp: better_def)

lemma first_extreme_best_of: "first_extreme md f n k \<longleftrightarrow> best_of md f {..<n} k"
proof
  assume "first_extreme md f n k"
  then have k: "k < n" "\<And>j. j < n \<Longrightarrow> \<not> better md (f j) (f k)" "\<And>j. j < k \<Longrightarrow> f j \<noteq> f k"
    by (auto simp: first_extreme_def)
  have "k \<le> j" if "f j = f k" for j
    using k(3)[of j] that by (cases "j < k") auto
  with k(1,2) show "best_of md f {..<n} k" by (simp add: best_of_def)
next
  assume "best_of md f {..<n} k"
  then have k: "k < n" "\<And>j. j < n \<Longrightarrow> \<not> better md (f j) (f k)"
    "\<And>j. j < n \<Longrightarrow> f j = f k \<Longrightarrow> k \<le> j"
    by (auto simp: best_of_def)
  have "f j \<noteq> f k" if "j < k" for j
    using k(3)[of j] that k(1) by auto
  with k(1,2) show "first_extreme md f n k" by (simp add: first_extreme_def)
qed

lemma best_of_unique: "best_of md f S k \<Longrightarrow> best_of md f S k' \<Longrightarrow> k = k'"
proof -
  assume a: "best_of md f S k" "best_of md f S k'"
  then have "\<not> better md (f k') (f k)" "\<not> better md (f k) (f k')"
    by (auto simp: best_of_def)
  then have "f k = f k'" using better_total[of md "f k" "f k'"] by auto
  with a have "k \<le> k'" "k' \<le> k" by (auto simp: best_of_def)
  then show ?thesis by simp
qed

lemma first_extreme_unique: "first_extreme md f n k \<Longrightarrow> first_extreme md f n k' \<Longrightarrow> k = k'"
  by (simp add: first_extreme_best_of best_of_unique)

lemma best_of_singleton [simp]: "best_of md f {k} k"
  by (simp add: best_of_def)

lemma best_of_step:
  assumes "best_of md f S q" "best_of md f S' p"
  shows "best_of md f (S \<union> S')
           (if better md (f p) (f q) then p else if f p = f q \<and> p < q then p else q)"
proof -
  have S: "q \<in> S" "\<And>j. j \<in> S \<Longrightarrow> \<not> better md (f j) (f q)" "\<And>j. j \<in> S \<Longrightarrow> f j = f q \<Longrightarrow> q \<le> j"
    using assms(1) by (auto simp: best_of_def)
  have S': "p \<in> S'" "\<And>j. j \<in> S' \<Longrightarrow> \<not> better md (f j) (f p)" "\<And>j. j \<in> S' \<Longrightarrow> f j = f p \<Longrightarrow> p \<le> j"
    using assms(2) by (auto simp: best_of_def)
  consider (a) "better md (f p) (f q)" | (b) "f p = f q" "p < q" | (c) "f p = f q" "q \<le> p"
    | (d) "better md (f q) (f p)"
    using better_total[of md "f p" "f q"] by fastforce
  then show ?thesis
  proof cases
    case a
    have "\<not> better md (f j) (f p) \<and> (f j = f p \<longrightarrow> p \<le> j)" if "j \<in> S \<union> S'" for j
    proof (cases "j \<in> S")
      case True
      have "\<not> better md (f j) (f p)" using S(2)[OF True] a better_trans by metis
      moreover have "f j \<noteq> f p" using S(2)[OF True] a by auto
      ultimately show ?thesis by simp
    next
      case False
      with that have "j \<in> S'" by simp
      then show ?thesis using S'(2,3) by simp
    qed
    with a S'(1) show ?thesis by (simp add: best_of_def)
  next
    case b
    have "\<not> better md (f j) (f p) \<and> (f j = f p \<longrightarrow> p \<le> j)" if "j \<in> S \<union> S'" for j
    proof (cases "j \<in> S")
      case True
      have "f j = f q \<Longrightarrow> p \<le> j" using S(3)[OF True] b(2) by simp
      then show ?thesis using S(2)[OF True] b(1) by simp
    next
      case False
      with that have "j \<in> S'" by simp
      then show ?thesis using S'(2,3) by simp
    qed
    with b S'(1) show ?thesis by (simp add: best_of_def)
  next
    case c
    have "\<not> better md (f j) (f q) \<and> (f j = f q \<longrightarrow> q \<le> j)" if "j \<in> S \<union> S'" for j
    proof (cases "j \<in> S")
      case True
      then show ?thesis using S(2,3) by simp
    next
      case False
      with that have j: "j \<in> S'" by simp
      have "f j = f p \<Longrightarrow> q \<le> j" using S'(3)[OF j] c(2) by simp
      then show ?thesis using S'(2)[OF j] c(1) by simp
    qed
    moreover have "\<not> p < q" using c(2) by simp
    ultimately show ?thesis using c(1) S(1) by (simp add: best_of_def)
  next
    case d
    have "\<not> better md (f j) (f q) \<and> (f j = f q \<longrightarrow> q \<le> j)" if "j \<in> S \<union> S'" for j
    proof (cases "j \<in> S")
      case True
      then show ?thesis using S(2,3) by simp
    next
      case False
      with that have j: "j \<in> S'" by simp
      have "\<not> better md (f j) (f q)" using S'(2)[OF j] d better_trans by metis
      moreover have "f j \<noteq> f q" using S'(2)[OF j] d by auto
      ultimately show ?thesis by simp
    qed
    moreover have "\<not> better md (f p) (f q)" using d better_asym by metis
    moreover have "f p \<noteq> f q" using d by auto
    ultimately show ?thesis using S(1) by (simp add: best_of_def)
  qed
qed

lemma naive_scan_first_extreme: "0 < n \<Longrightarrow> first_extreme md f n (naive_scan md f n)"
proof (induction n)
  case 0
  then show ?case by simp
next
  case (Suc n)
  show ?case
  proof (cases "n = 0")
    case True
    then show ?thesis by (simp add: first_extreme_def)
  next
    case False
    then have "best_of md f {..<n} (naive_scan md f n)"
      using Suc.IH by (simp add: first_extreme_best_of)
    from best_of_step[OF this best_of_singleton[of md f n]]
    have "best_of md f ({..<n} \<union> {n})
            (if better md (f n) (f (naive_scan md f n)) then n
             else if f n = f (naive_scan md f n) \<and> n < naive_scan md f n then n
             else naive_scan md f n)" .
    moreover have "naive_scan md f n < n"
      using Suc.IH False by (simp add: first_extreme_def)
    moreover have "{..<n} \<union> {n} = {..<Suc n}" by auto
    ultimately show ?thesis
      by (auto simp add: first_extreme_best_of Let_def split: if_splits)
  qed
qed


lemma naive_scan_less: "0 < n \<Longrightarrow> naive_scan md f n < n"
  using naive_scan_first_extreme[of n md f] by (simp add: first_extreme_def)

lemma naive_scan_eqI: "first_extreme md f n k \<Longrightarrow> naive_scan md f n = k"
proof -
  assume k: "first_extreme md f n k"
  then have "0 < n" by (auto simp: first_extreme_def)
  then have "first_extreme md f n (naive_scan md f n)" by (rule naive_scan_first_extreme)
  then show ?thesis using k by (rule first_extreme_unique)
qed

subsection \<open>Rounding of indices\<close>

lemma bitlen_le: "bitlen n \<le> k \<longleftrightarrow> n < 2 ^ k"
proof (induction n arbitrary: k rule: bitlen.induct)
  case (1 n)
  show ?case
  proof (cases "n = 0")
    case True
    then show ?thesis by simp
  next
    case False
    show ?thesis
    proof (cases k)
      case 0
      then show ?thesis using False by (subst bitlen.simps) simp
    next
      case (Suc k')
      have "bitlen n \<le> Suc k' \<longleftrightarrow> bitlen (n div 2) \<le> k'"
        using False by (subst bitlen.simps) simp
      also have "\<dots> \<longleftrightarrow> n div 2 < 2 ^ k'" using "1.IH"[OF False] .
      also have "\<dots> \<longleftrightarrow> n < 2 ^ Suc k'" by auto
      finally show ?thesis using Suc by simp
    qed
  qed
qed

lemma bitlen_pow2: "bitlen (2 ^ k) = Suc k"
proof -
  have "bitlen (2 ^ k) \<le> Suc k" by (simp add: bitlen_le)
  moreover have "\<not> bitlen (2 ^ k) \<le> k" by (simp add: bitlen_le)
  ultimately show ?thesis by simp
qed

lemma f32_exact: "n \<le> 2 ^ 24 \<Longrightarrow> f32 n = n"
proof (cases "n < 2 ^ 24")
  case True
  then have "bitlen n \<le> 24" by (simp add: bitlen_le)
  then show ?thesis by (simp add: f32_def)
next
  case False
  assume "n \<le> 2 ^ 24"
  with False have n: "n = 2 ^ 24" by simp
  have "bitlen n = 25" using bitlen_pow2[of 24] by (simp add: n)
  then show ?thesis by (simp add: f32_def Let_def n)
qed

lemma composite_exact:
  assumes "lane gi c = g" "4 * g + c \<le> 2 ^ 24"
  shows "composite gi c = 4 * g + c"
proof -
  have "g \<le> 2 ^ 24" "g * 4 \<le> 2 ^ 24" "c \<le> 2 ^ 24" using assms(2) by simp_all
  then show ?thesis
    using assms by (simp add: composite_def f32_mul_def f32_add_def f32_exact mult.commute)
qed

subsection \<open>The horizontal compare\<close>

lemma CompareC4_unfold:
  "CompareC4 md gv gi c e (vf, xf) =
     (if c < e then
        CompareC4 md gv gi (Suc c) e
          (if better md (lane gv c) vf then (lane gv c, composite gi c)
           else if lane gv c = vf \<and> composite gi c < xf then (vf, composite gi c)
           else (vf, xf))
      else (vf, xf))"
  by (subst CompareC4.simps) (simp add: better_def)

lemma CompareC4_best:
  fixes f :: "nat \<Rightarrow> 'a::linorder"
  assumes "\<And>c. s \<le> c \<Longrightarrow> c < e \<Longrightarrow>
              lane gv c = f (P c) \<and> composite gi c = P c \<and> best_of md f (SS c) (P c)"
    and "best_of md f S q"
  shows "\<exists>q'. CompareC4 md gv gi s e (f q, q) = (f q', q') \<and>
              best_of md f (S \<union> (\<Union>c\<in>{s..<e}. SS c)) q'"
  using assms
proof (induction "e - s" arbitrary: s q S)
  case 0
  then have "\<not> s < e" by simp
  then show ?case using "0.prems"(2) by (subst CompareC4_unfold) auto
next
  case (Suc n)
  then have lt: "s < e" by simp
  let ?p = "P s"
  let ?q1 = "if better md (f ?p) (f q) then ?p else if f ?p = f q \<and> ?p < q then ?p else q"
  have lane_s: "lane gv s = f ?p" "composite gi s = ?p" "best_of md f (SS s) ?p"
    using Suc.prems(1)[OF order_refl lt] by auto
  have step: "CompareC4 md gv gi s e (f q, q) = CompareC4 md gv gi (Suc s) e (f ?q1, ?q1)"
    using lt by (subst CompareC4_unfold) (simp add: lane_s)
  have b1: "best_of md f (S \<union> SS s) ?q1"
    by (rule best_of_step[OF Suc.prems(2) lane_s(3)])
  have n: "n = e - Suc s" using Suc.hyps(2) by simp
  have rest: "\<And>c. Suc s \<le> c \<Longrightarrow> c < e \<Longrightarrow>
              lane gv c = f (P c) \<and> composite gi c = P c \<and> best_of md f (SS c) (P c)"
    using Suc.prems(1) by simp
  from Suc.hyps(1)[OF n rest b1]
  obtain q' where q': "CompareC4 md gv gi (Suc s) e (f ?q1, ?q1) = (f q', q')"
     "best_of md f (S \<union> SS s \<union> (\<Union>c\<in>{Suc s..<e}. SS c)) q'"
    by blast
  have "{s..<e} = insert s {Suc s..<e}" using lt by auto
  then have "S \<union> SS s \<union> (\<Union>c\<in>{Suc s..<e}. SS c) = S \<union> (\<Union>c\<in>{s..<e}. SS c)"
    by auto
  with q' step show ?case by metis
qed

subsection \<open>One group of the channel axis\<close>

lemma best_of_image:
  assumes "strict_mono g" "best_of md (\<lambda>r. f (g r)) S k"
  shows "best_of md f (g ` S) (g k)"
proof -
  have k: "k \<in> S" "\<And>j. j \<in> S \<Longrightarrow> \<not> better md (f (g j)) (f (g k))"
    "\<And>j. j \<in> S \<Longrightarrow> f (g j) = f (g k) \<Longrightarrow> k \<le> j"
    using assms(2) by (auto simp: best_of_def)
  have "\<not> better md (f j) (f (g k)) \<and> (f j = f (g k) \<longrightarrow> g k \<le> j)" if "j \<in> g ` S" for j
  proof -
    from that obtain j' where j': "j' \<in> S" "j = g j'" by auto
    have "f (g j') = f (g k) \<Longrightarrow> g k \<le> g j'"
      using k(3)[OF j'(1)] assms(1) by (simp add: strict_mono_less_eq)
    then show ?thesis using k(2)[OF j'(1)] j'(2) by simp
  qed
  with k(1) show ?thesis by (simp add: best_of_def)
qed

lemma lanes_cover: "(\<Union>k\<in>{0..<4}. (\<lambda>r. 4 * r + k) ` {..<c4}) = {..<4 * (c4::nat)}"
proof (intro set_eqI iffI)
  fix x assume "x \<in> (\<Union>k\<in>{0..<4}. (\<lambda>r. 4 * r + k) ` {..<c4})"
  then obtain k r where "k < 4" "r < c4" "x = 4 * r + k" by auto
  then show "x \<in> {..<4 * c4}" by simp
next
  fix x assume "x \<in> {..<4 * c4}"
  then have "x div 4 < c4" "x mod 4 < 4" "x = 4 * (x div 4) + x mod 4" by auto
  then show "x \<in> (\<Union>k\<in>{0..<4}. (\<lambda>r. 4 * r + k) ` {..<c4})"
    by (metis (mono_tags, lifting) UN_iff atLeastLessThan_iff imageI lessThan_iff zero_le)
qed

lemma lanes_cover_split:
  "(\<lambda>r. 4 * r) ` {..<c4} \<union> (\<Union>k\<in>{1..<4}. (\<lambda>r. 4 * r + k) ` {..<c4}) = {..<4 * (c4::nat)}"
proof -
  have "{0..<4::nat} = insert 0 {1..<4}" by auto
  then have "(\<Union>k\<in>{0..<4}. (\<lambda>r. 4 * r + k) ` {..<c4}) =
        (\<lambda>r. 4 * r) ` {..<c4} \<union> (\<Union>k\<in>{1..<4}. (\<lambda>r. 4 * r + k) ` {..<c4})"
    by simp
  then show ?thesis using lanes_cover[of c4] by simp
qed

lemma rem_cover: "S \<union> (\<Union>c\<in>{0..<r4}. {4 * c4 + c}) = S \<union> {4 * c4..<4 * c4 + (r4::nat)}"
proof -
  have "(\<Union>c\<in>{0..<r4}. {4 * c4 + c}) = {4 * c4..<4 * c4 + r4}"
  proof (intro set_eqI iffI)
    fix x assume "x \<in> {4 * c4..<4 * c4 + r4}"
    then have "x - 4 * c4 \<in> {0..<r4}" "x = 4 * c4 + (x - 4 * c4)" by auto
    then show "x \<in> (\<Union>c\<in>{0..<r4}. {4 * c4 + c})" by blast
  qed auto
  then show ?thesis by simp
qed


lemma macro_guards:
  "snd (ExecWithoutWorkspace t inp out b ob od n md) =
     ExecWithoutWorkspace_loop md inp b od n 1 (Float4_of_int 0, Float4_load inp b)"
  by (simp add: ExecWithoutWorkspace_def split_beta)

text \<open>
  While every index up to \<open>C - 1\<close> is a float, the index of a group is the naive scan over
  its \<open>C = 4 * c4 + r4\<close> logical channels.
\<close>

lemma channel_index_exact:
  fixes inp :: "nat \<Rightarrow> 'a::linorder"
  assumes "r4 < 4" "4 * c4 + r4 \<le> 2 ^ 24 + 1"
  shows "channel_index md inp p c4 r4 od =
           naive_scan md (\<lambda>c. inp (p + c div 4 * od + c mod 4)) (4 * c4 + r4)"
proof -
  define f where "f = (\<lambda>c. inp (p + c div 4 * od + c mod 4))"
  define G where "G = ExecWithoutWorkspace T_float inp (\<lambda>a. Idx 0 :: 'a cell) p 0 od c4 md"
  let ?gi = "fst (snd G)" and ?gv = "snd (snd G)"
  define final1 where "final1 =
     (if c4 \<noteq> 0
      then CompareC4 md ?gv ?gi 1 4 (lane ?gv 0, f32_mul (lane ?gi 0) (f32 4))
      else (lane ?gv 0, f32_mul (lane ?gi 0) (f32 4)))"
  define final2 where "final2 =
     (if r4 \<noteq> 0
      then CompareC4 md (Float4_load inp (p + c4 * od)) (Float4_of_int c4) 0 r4 final1
      else final1)"
  have ci: "channel_index md inp p c4 r4 od = snd final2"
    by (simp add: channel_index_def index_final_of_def Let_def final2_def final1_def G_def
        macro_guards)
  define A where "A k = naive_scan md (\<lambda>r. inp (p + r * od + k)) c4" for k
  have sub: "(\<lambda>r. inp (p + r * od + k)) = (\<lambda>r. f (4 * r + k))" if "k < 4" for k
    using that by (simp add: f_def)
  have A_less: "A k < c4" if "c4 \<noteq> 0" for k
    unfolding A_def using that by (intro naive_scan_less) simp
  have A_small: "A k \<le> 2 ^ 24" for k
  proof (cases "c4 = 0")
    case True
    then show ?thesis by (simp add: A_def)
  next
    case False
    then show ?thesis using A_less[of k] assms(2) by simp
  qed
  have gi: "lane ?gi k = A k" if "k < 4" for k
    unfolding G_def A_def using macro_lanes(1)[OF that, of T_float inp _ p _ od c4 md] A_small[of k]
    by (simp add: f32_exact A_def)
  have gv: "lane ?gv k = f (4 * A k + k)" if "k < 4" for k
  proof -
    have "lane ?gv k = inp (p + A k * od + k)"
      unfolding G_def A_def by (rule macro_lanes(2)[OF that])
    then show ?thesis using that by (simp add: f_def)
  qed
  have comp: "composite ?gi k = 4 * A k + k" if "k < 4" "c4 \<noteq> 0" for k
  proof (rule composite_exact[OF gi[OF that(1)]])
    show "4 * A k + k \<le> 2 ^ 24" using A_less[OF that(2), of k] that(1) assms(2) by simp
  qed
  have idx0: "f32_mul (lane ?gi 0) (f32 4) = 4 * A 0"
  proof -
    have "A 0 * 4 \<le> 2 ^ 24"
    proof (cases "c4 = 0")
      case True
      then show ?thesis by (simp add: A_def)
    next
      case False
      then show ?thesis using A_less[of 0] assms(2) by simp
    qed
    then show ?thesis by (simp add: f32_mul_def gi f32_exact mult.commute)
  qed
  \<comment> \<open>the state after the full groups\<close>
  have f1: "\<exists>q. final1 = (f q, q) \<and> best_of md f (if c4 = 0 then {0} else {..<4 * c4}) q"
  proof (cases "c4 = 0")
    case True
    have "A 0 = 0" by (simp add: A_def True)
    then have "final1 = (f 0, 0)"
      using gv[of 0] True by (simp add: final1_def idx0)
    then show ?thesis using True by auto
  next
    case False
    have lane_best: "best_of md f ((\<lambda>r. 4 * r + k) ` {..<c4}) (4 * A k + k)" if "k < 4" for k
    proof -
      have "first_extreme md (\<lambda>r. f (4 * r + k)) c4 (A k)"
        unfolding A_def sub[OF that] using False by (intro naive_scan_first_extreme) simp
      then have "best_of md (\<lambda>r. f (4 * r + k)) {..<c4} (A k)"
        by (simp add: first_extreme_best_of)
      moreover have "strict_mono (\<lambda>r::nat. 4 * r + k)"
        by (simp add: strict_mono_def)
      ultimately show ?thesis by (rule best_of_image[rotated])
    qed
    have lanes: "\<And>c. 1 \<le> c \<Longrightarrow> c < 4 \<Longrightarrow>
        lane ?gv c = f (4 * A c + c) \<and> composite ?gi c = 4 * A c + c \<and>
        best_of md f ((\<lambda>r. 4 * r + c) ` {..<c4}) (4 * A c + c)"
      using gv comp[OF _ False] lane_best by simp
    have b0: "best_of md f ((\<lambda>r. 4 * r) ` {..<c4}) (4 * A 0)"
      using lane_best[of 0] by simp
    from CompareC4_best[of 1 4 ?gv f "\<lambda>c. 4 * A c + c" ?gi md "\<lambda>c. (\<lambda>r. 4 * r + c) ` {..<c4}",
        OF lanes b0]
    obtain q' where q': "CompareC4 md ?gv ?gi 1 4 (f (4 * A 0), 4 * A 0) = (f q', q')"
      "best_of md f ((\<lambda>r. 4 * r) ` {..<c4} \<union> (\<Union>c\<in>{1..<4}. (\<lambda>r. 4 * r + c) ` {..<c4})) q'"
      by blast
    have "final1 = (f q', q')"
      using q'(1) gv[of 0] False by (simp add: final1_def idx0)
    moreover have "best_of md f {..<4 * c4} q'"
      using q'(2) by (simp only: lanes_cover_split)
    ultimately show ?thesis using False by auto
  qed
  then obtain q where q: "final1 = (f q, q)"
    "best_of md f (if c4 = 0 then {0} else {..<4 * c4}) q" by blast
  have "snd final2 = naive_scan md f (4 * c4 + r4)"
  proof (cases "r4 = 0")
    case True
    then have fin: "snd final2 = q" by (simp add: final2_def q(1))
    show ?thesis
    proof (cases "c4 = 0")
      case True
      with q(2) have "q = 0" by (simp add: best_of_def)
      with fin True \<open>r4 = 0\<close> show ?thesis by simp
    next
      case False
      with q(2) have "first_extreme md f (4 * c4) q" by (simp add: first_extreme_best_of)
      then have "naive_scan md f (4 * c4) = q" by (rule naive_scan_eqI)
      with fin \<open>r4 = 0\<close> show ?thesis by simp
    qed
  next
    case False
    let ?cv = "Float4_load inp (p + c4 * od)" and ?ci = "Float4_of_int c4"
    have c4_small: "c4 \<le> 2 ^ 24" using assms(2) by simp
    have rem: "\<And>c. 0 \<le> c \<Longrightarrow> c < r4 \<Longrightarrow>
        lane ?cv c = f (4 * c4 + c) \<and> composite ?ci c = 4 * c4 + c \<and>
        best_of md f {4 * c4 + c} (4 * c4 + c)"
    proof -
      fix c :: nat assume c: "c < r4"
      have "lane ?ci c = c4" using c4_small by (simp add: f32_exact)
      moreover have "4 * c4 + c \<le> 2 ^ 24" using c assms(2) by simp
      ultimately have "composite ?ci c = 4 * c4 + c" by (rule composite_exact)
      moreover have "lane ?cv c = f (4 * c4 + c)"
        using c assms(1) by (simp add: lane_load f_def mult.commute add.assoc)
      ultimately show "lane ?cv c = f (4 * c4 + c) \<and> composite ?ci c = 4 * c4 + c \<and>
        best_of md f {4 * c4 + c} (4 * c4 + c)" by simp
    qed
    from CompareC4_best[of 0 r4 ?cv f "\<lambda>c. 4 * c4 + c" ?ci md "\<lambda>c. {4 * c4 + c}", OF rem q(2)]
    obtain q' where q': "CompareC4 md ?cv ?ci 0 r4 (f q, q) = (f q', q')"
      "best_of md f ((if c4 = 0 then {0} else {..<4 * c4}) \<union> (\<Union>c\<in>{0..<r4}. {4 * c4 + c})) q'"
      by blast
    have fin: "snd final2 = q'" using False q'(1) by (simp add: final2_def q(1))
    have "(if c4 = 0 then {0} else {..<4 * c4}) \<union> {4 * c4..<4 * c4 + r4} = {..<4 * c4 + r4}"
      using False by auto
    with q'(2) have "best_of md f {..<4 * c4 + r4} q'"
      by (simp only: rem_cover)
    then have "first_extreme md f (4 * c4 + r4) q'" by (simp add: first_extreme_best_of)
    then have "naive_scan md f (4 * c4 + r4) = q'" by (rule naive_scan_eqI)
    with fin show ?thesis by simp
  qed
  then show ?thesis by (simp add: ci f_def)
qed

subsection \<open>The loops of the channel axis\<close>

lemma ExecDimC_body_apply:
  fixes inp :: "nat \<Rightarrow> 'a::linorder"
  shows "ExecDimC_body t md inp out p po c4 r4 od a =
           (if po \<le> a \<and> a < po + 4
            then (if a = po then stored t (channel_index md inp p c4 r4 od) else stored t 0)
            else out a)"
proof -
  let ?M = "ExecWithoutWorkspace t inp out p po od c4 md"
  have body: "ExecDimC_body t md inp out p po c4 r4 od =
        Float4_save_index t (fst ?M) po
          (set_lane (Float4_of_int 0) (channel_index md inp p c4 r4 od) 0)"
    by (simp add: ExecDimC_body_def split_beta Let_def channel_index_def macro_guards)
  have M: "fst ?M = Float4_save_index t out po (fst (snd ?M))"
    by (rule macro_lanes(3)[of 0]) simp
  show ?thesis
  proof (cases "po \<le> a \<and> a < po + 4")
    case False
    then show ?thesis unfolding body
      by (subst save_index_apply, subst M, subst save_index_apply) auto
  next
    case True
    then have "a - po = 0 \<or> a - po = 1 \<or> a - po = 2 \<or> a - po = 3" by arith
    then show ?thesis using True unfolding body
      by (subst save_index_apply) (auto simp: set_lane_def)
  qed
qed

lemma ExecDimC_outer_apply:
  fixes inp :: "nat \<Rightarrow> 'a::linorder"
  assumes "4 dvd od" "4 dvd ou"
  shows "ExecDimC_outer t md inp ii oi c4 r4 od ou out a =
           (if oi + ou \<le> a \<and> a < oi + od
            then (if (a - oi) mod 4 = 0
                  then stored t (channel_index md inp (ii + (a - oi)) c4 r4 od)
                  else stored t 0)
            else out a)"
  using assms
proof (induction t md inp ii oi c4 r4 od ou out rule: ExecDimC_outer.induct)
  case (1 t md inp ii oi c4 r4 od ou out)
  show ?case
  proof (cases "ou < od")
    case False
    then show ?thesis by (auto simp add: ExecDimC_outer.simps)
  next
    case True
    let ?B = "ExecDimC_body t md inp out (ii + ou) (oi + ou) c4 r4 od"
    have step: "ExecDimC_outer t md inp ii oi c4 r4 od ou out =
                ExecDimC_outer t md inp ii oi c4 r4 od (ou + 4) ?B"
      using True by (subst ExecDimC_outer.simps) (simp add: Let_def)
    have le: "ou + 4 \<le> od" using dvd4_step[OF "1.prems"(1,2) True] .
    have d: "4 dvd ou + 4" using "1.prems"(2) by simp
    have IH: "ExecDimC_outer t md inp ii oi c4 r4 od (ou + 4) ?B a =
           (if oi + (ou + 4) \<le> a \<and> a < oi + od
            then (if (a - oi) mod 4 = 0
                  then stored t (channel_index md inp (ii + (a - oi)) c4 r4 od)
                  else stored t 0)
            else ?B a)"
      using "1.IH"[OF True refl refl "1.prems"(1) d] .
    show ?thesis
    proof (cases "oi + ou \<le> a \<and> a < oi + ou + 4")
      case False
      then show ?thesis unfolding step IH ExecDimC_body_apply by auto
    next
      case True
      then have k: "a - oi = ou + (a - (oi + ou))" "a - (oi + ou) < 4" by auto
      have m: "(a - oi) mod 4 = a - (oi + ou)"
        using "1.prems"(2) k by (metis mod_add_left_eq dvd_imp_mod_0 add.left_neutral mod_less)
      have "a = oi + ou \<longleftrightarrow> (a - oi) mod 4 = 0" using m True by auto
      moreover have "a = oi + ou \<Longrightarrow> ii + ou = ii + (a - oi)" by simp
      ultimately show ?thesis using True le
        unfolding step IH ExecDimC_body_apply by auto
    qed
  qed
qed

lemma ExecDimC_inner_apply:
  fixes inp :: "nat \<Rightarrow> 'a::linorder"
  assumes "4 dvd od"
  shows "ExecDimC_inner t md inp inner rd c4 r4 od i out a =
           (if i * od \<le> a \<and> a < inner * od
            then (if a mod 4 = 0
                  then stored t (channel_index md inp (a div od * rd * od + a mod od) c4 r4 od)
                  else stored t 0)
            else out a)"
  using assms
proof (induction t md inp inner rd c4 r4 od i out rule: ExecDimC_inner.induct)
  case (1 t md inp inner rd c4 r4 od i out)
  show ?case
  proof (cases "i < inner")
    case False
    then have "inner \<le> i" by simp
    then have "inner * od \<le> i * od" by (rule mult_le_mono1)
    then have "\<not> (i * od \<le> a \<and> a < inner * od)" by linarith
    with False show ?thesis by (auto simp add: ExecDimC_inner.simps)
  next
    case True
    let ?O = "ExecDimC_outer t md inp (i * rd * od) (i * od) c4 r4 od 0 out"
    have step: "ExecDimC_inner t md inp inner rd c4 r4 od i out =
                ExecDimC_inner t md inp inner rd c4 r4 od (Suc i) ?O"
      using True by (subst ExecDimC_inner.simps) (simp add: Let_def)
    have IH: "ExecDimC_inner t md inp inner rd c4 r4 od (Suc i) ?O a =
           (if Suc i * od \<le> a \<and> a < inner * od
            then (if a mod 4 = 0
                  then stored t (channel_index md inp (a div od * rd * od + a mod od) c4 r4 od)
                  else stored t 0)
            else ?O a)"
      using "1.IH"[OF True refl refl "1.prems"] .
    have O: "?O a =
           (if i * od \<le> a \<and> a < i * od + od
            then (if (a - i * od) mod 4 = 0
                  then stored t (channel_index md inp (i * rd * od + (a - i * od)) c4 r4 od)
                  else stored t 0)
            else out a)"
      using ExecDimC_outer_apply[OF "1.prems", of 0 t md inp "i * rd * od" "i * od" c4 r4 out a]
      by simp
    show ?thesis
    proof (cases "i * od \<le> a \<and> a < i * od + od")
      case in_slice: True
      then have dm: "a div od = i" "a mod od = a - i * od"
        by (simp_all add: slice_div_mod)
      have "4 dvd i * od" using "1.prems" by simp
      then have m4: "(a - i * od) mod 4 = a mod 4"
        using in_slice by (metis mod_diff_right_eq diff_zero dvd_imp_mod_0 le_imp_diff_is_add mod_add_right_eq add.right_neutral add.commute)
      have "Suc i * od \<le> inner * od" using True by (simp add: Suc_leI mult_le_mono1 del: mult_Suc)
      then have "a < inner * od" using in_slice by simp
      with in_slice show ?thesis unfolding step IH O by (simp add: dm m4)
    next
      case False
      then show ?thesis unfolding step IH O by auto
    qed
  qed
qed

section \<open>What the dispatcher writes\<close>

subsection \<open>Machine integers\<close>

lemma int32_id: "0 \<le> x \<Longrightarrow> x < 2 ^ 31 \<Longrightarrow> int32 x = x"
  by (simp add: int32_def)

lemma int32_nat: "x < 2 ^ 31 \<Longrightarrow> int32 (int x) = int x"
  by (rule int32_id) (simp_all add: of_nat_less_numeral_power_cancel_iff)

lemma int32_dvd4: "4 dvd x \<Longrightarrow> 4 dvd int32 x"
proof -
  assume x: "4 dvd x"
  have "(x + 2 ^ 31) mod 2 ^ 32 = (x + 2 ^ 31) - 2 ^ 32 * ((x + 2 ^ 31) div 2 ^ 32)"
    by (simp only: minus_mult_div_eq_mod)
  then have "int32 x = x - 4 * (2 ^ 30 * ((x + 2 ^ 31) div 2 ^ 32))"
    by (simp add: int32_def)
  then show ?thesis using x by (simp only: dvd_diff dvd_triv_left)
qed

lemma nat_dvd4: "4 dvd (z::int) \<Longrightarrow> 4 dvd nat z"
proof (cases "0 \<le> z")
  case True
  assume "4 dvd z"
  then have "int 4 dvd int (nat z)" using True by simp
  then show ?thesis by (simp only: of_nat_dvd_iff)
next
  case False
  then show ?thesis by simp
qed

lemma int_div_nat: "int_div (int a) 4 = int (a div 4)"
  by (cases "a = 0") (simp_all add: int_div_def zdiv_int)

lemma le_mult_left: "0 < k \<Longrightarrow> (x::nat) \<le> k * x"
  by simp

lemma le_mult_right: "0 < k \<Longrightarrow> (x::nat) \<le> x * k"
  by simp

subsection \<open>By flat offset, for extents of any size\<close>

lemma sizeof_T_cancel: "od * sizeof_T t div sizeof_T t = od"
  by (cases t) simp_all

lemma ROUND_UP_4: "ROUND_UP c 4 = UP_DIV c 4 * 4"
  by (simp add: ROUND_UP_def UP_DIV_def)

lemma UP_DIV_4: "UP_DIV c 4 = c div 4 + (if c mod 4 = 0 then 0 else 1)"
proof -
  define m where "m = c mod 4"
  have "m < 4" by (simp add: m_def)
  then have "m = 0 \<or> m = 1 \<or> m = 2 \<or> m = 3" by arith
  then have "(m + 3) div 4 = (if m = 0 then 0 else 1)" by auto
  moreover have "(c + 3) div 4 = c div 4 + (m + 3) div 4"
    unfolding m_def by (subst div_add1_eq) simp
  ultimately show ?thesis by (simp add: UP_DIV_def m_def)
qed

lemma channel_groups:
  "nat (if int (c mod 4) = 0 then int (UP_DIV c 4) else int (UP_DIV c 4) - 1) = c div 4"
  by (simp add: UP_DIV_4)

lemma naive_scan_mode_param:
  "naive_scan (if md = 0 then 0 else 1) f n = naive_scan md f n"
  using naive_scan_mode[of md f n] by simp

lemma ExecWithWorkspace_out:
  assumes "4 dvd nat od" "GetBytesSize (data_type input) = sizeof_T t"
  shows "out_base (ExecWithWorkspace t param input output ws bs inner n od) a =
           (if a < nat inner * nat od
            then Idx (f32 (naive_scan (mode param)
                   (\<lambda>r. base input (a div nat od * nat n * nat od + r * nat od + a mod nat od)) (nat n)))
            else base output a)"
proof -
  have c: "nat od * GetBytesSize (data_type input) div sizeof_T t = nat od"
    using assms(2) by (simp add: sizeof_T_cancel)
  note A = ExecImpl_inner_apply[OF assms(1) c, of _ "base input" "nat inner" "nat n" 0 ws "base output" a]
  show ?thesis
  proof (cases "mode param = 0")
    case True
    then show ?thesis using A[of 0]
      by (simp add: ExecWithWorkspace_def ExecImpl_def split_beta Let_def)
  next
    case False
    then show ?thesis using A[of 1]
      by (simp add: ExecWithWorkspace_def ExecImpl_def split_beta Let_def naive_scan_mode[of "mode param"])
  qed
qed

lemma ExecDimW_out:
  "out_base (ExecDimW t md input output) a =
     (if a < nat (int32 (int32 (int (dim0 (dims input)) * int (UP_DIV (dim1 (dims input)) 4)) *
                         int (dim2 (dims input)))) * 4
      then stored t (f32 (naive_scan md
             (\<lambda>r. base input (a div 4 * dim3 (dims input) * 4 + r * 4 + a mod 4)) (dim3 (dims input))))
      else base output a)"
  by (simp add: ExecDimW_def Let_def ExecDimW_inner_apply)

lemma ExecDimC_out:
  "out_base (ExecDimC t md input output) a =
     (if a < dim0 (dims input) *
             nat (int32 (int32 (int (dim2 (dims input)) * int (dim3 (dims input))) * 4))
      then (if a mod 4 = 0
            then stored t (channel_index md (base input)
                   (a div nat (int32 (int32 (int (dim2 (dims input)) * int (dim3 (dims input))) * 4)) *
                      UP_DIV (dim1 (dims input)) 4 *
                      nat (int32 (int32 (int (dim2 (dims input)) * int (dim3 (dims input))) * 4)) +
                    a mod nat (int32 (int32 (int (dim2 (dims input)) * int (dim3 (dims input))) * 4)))
                   (dim1 (dims input) div 4) (dim1 (dims input) mod 4)
                   (nat (int32 (int32 (int (dim2 (dims input)) * int (dim3 (dims input))) * 4))))
            else stored t 0)
      else base output a)"
proof -
  have d: "4 dvd nat (int32 (int32 (int (dim2 (dims input)) * int (dim3 (dims input))) * 4))"
    by (intro nat_dvd4 int32_dvd4) simp
  show ?thesis
    unfolding ExecDimC_def Let_def
    by (simp only: Run.simps channel_groups nat_int ExecDimC_inner_apply[OF d] mult_0 zero_le simp_thms)
qed

lemma Exec_unfold:
  "axis param = 0 \<Longrightarrow>
     Exec t param input output ws =
       ExecWithWorkspace t param input output ws (int (GetBytesSize (data_type input))) 1
         (int (dim0 (dims input)))
         (int32 (int32 (int (ROUND_UP (dim1 (dims input)) 4) * int (dim2 (dims input))) *
                 int (dim3 (dims input))))"
  "axis param = 1 \<Longrightarrow>
     Exec t param input output ws = ExecDimC t (if mode param = 0 then 0 else 1) input output"
  "axis param = 2 \<Longrightarrow>
     Exec t param input output ws =
       ExecWithWorkspace t param input output ws (int (GetBytesSize (data_type input)))
         (int_div (int32 (int (dim0 (dims input)) * int (ROUND_UP (dim1 (dims input)) 4))) 4)
         (int (dim2 (dims input))) (int32 (int (dim3 (dims input)) * 4))"
  "axis param = 3 \<Longrightarrow>
     Exec t param input output ws = ExecDimW t (if mode param = 0 then 0 else 1) input output"
  "axis param \<notin> {0, 1, 2, 3} \<Longrightarrow>
     Exec t param input output ws =
       \<lparr>status = TNNERR_PARAM_ERR ''argmax or argmin axis not support'',
        out_base = base output, out_elem = None, workspace_bytes = None, extents = None\<rparr>"
  by (simp_all add: Exec_def Let_def)

lemma workspace_dvd4:
  "4 dvd nat (int32 (int32 (int (ROUND_UP c 4) * int h) * int w))"
  "4 dvd nat (int32 (int w * 4))"
proof -
  have "4 dvd int (ROUND_UP c 4) * int h" by (simp add: ROUND_UP_4)
  then have "4 dvd int32 (int (ROUND_UP c 4) * int h)"
    by (rule int32_dvd4)
  then have "4 dvd int32 (int (ROUND_UP c 4) * int h) * int w"
    by (rule dvd_mult2)
  then show "4 dvd nat (int32 (int32 (int (ROUND_UP c 4) * int h) * int w))"
    by (intro nat_dvd4 int32_dvd4)
  show "4 dvd nat (int32 (int w * 4))"
    by (intro nat_dvd4 int32_dvd4) simp
qed

subsection \<open>Negated input and swapped mode\<close>

lemma better_neg:
  fixes a b :: "'a::linordered_idom"
  shows "better (if md = 0 then 1 else 0) (- a) (- b) = better md a b"
  by (simp add: better_def)

lemma naive_scan_neg:
  fixes f :: "nat \<Rightarrow> 'a::linordered_idom"
  shows "naive_scan (if md = 0 then 1 else 0) (\<lambda>r. - f r) n = naive_scan md f n"
  by (induction n) (simp_all add: Let_def better_neg)

lemma Float4_eqI: "(\<And>k. k < 4 \<Longrightarrow> lane a k = lane b k) \<Longrightarrow> a = b"
proof -
  assume l: "\<And>k. k < 4 \<Longrightarrow> lane a k = lane b k"
  obtain a0 a1 a2 a3 where a: "a = F4 a0 a1 a2 a3" by (cases a)
  obtain b0 b1 b2 b3 where b: "b = F4 b0 b1 b2 b3" by (cases b)
  show ?thesis using l[of 0] l[of 1] l[of 2] l[of 3] by (simp add: a b)
qed

lemma loop_lanes:
  assumes "k < 4"
  shows "lane (fst (ExecWithoutWorkspace_loop md inp b od n 1 (Float4_of_int 0, Float4_load inp b))) k =
           f32 (naive_scan md (\<lambda>r. inp (b + r * od + k)) n)"
    and "lane (snd (ExecWithoutWorkspace_loop md inp b od n 1 (Float4_of_int 0, Float4_load inp b))) k =
           inp (b + naive_scan md (\<lambda>r. inp (b + r * od + k)) n * od + k)"
proof -
  have "lane (fst (snd (ExecWithoutWorkspace T_float inp (\<lambda>a. Idx 0) b 0 od n md))) k =
           f32 (naive_scan md (\<lambda>r. inp (b + r * od + k)) n)"
    by (rule macro_lanes(1)[OF assms])
  then show "lane (fst (ExecWithoutWorkspace_loop md inp b od n 1 (Float4_of_int 0, Float4_load inp b))) k =
           f32 (naive_scan md (\<lambda>r. inp (b + r * od + k)) n)"
    by (simp add: macro_guards)
  have "lane (snd (snd (ExecWithoutWorkspace T_float inp (\<lambda>a. Idx 0) b 0 od n md))) k =
           inp (b + naive_scan md (\<lambda>r. inp (b + r * od + k)) n * od + k)"
    by (rule macro_lanes(2)[OF assms])
  then show "lane (snd (ExecWithoutWorkspace_loop md inp b od n 1 (Float4_of_int 0, Float4_load inp b))) k =
           inp (b + naive_scan md (\<lambda>r. inp (b + r * od + k)) n * od + k)"
    by (simp add: macro_guards)
qed

lemma loop_neg:
  fixes inp :: "nat \<Rightarrow> 'a::linordered_idom"
  shows "fst (ExecWithoutWorkspace_loop (if md = 0 then 1 else 0) (\<lambda>a. - inp a) p od n 1
                (Float4_of_int 0, Float4_load (\<lambda>a. - inp a) p)) =
         fst (ExecWithoutWorkspace_loop md inp p od n 1 (Float4_of_int 0, Float4_load inp p))"
    and "snd (ExecWithoutWorkspace_loop (if md = 0 then 1 else 0) (\<lambda>a. - inp a) p od n 1
                (Float4_of_int 0, Float4_load (\<lambda>a. - inp a) p)) =
         map_Float4 uminus
           (snd (ExecWithoutWorkspace_loop md inp p od n 1 (Float4_of_int 0, Float4_load inp p)))"
proof -
  let ?L' = "ExecWithoutWorkspace_loop (if md = 0 then 1 else 0) (\<lambda>a. - inp a) p od n 1
                (Float4_of_int 0, Float4_load (\<lambda>a. - inp a) p)"
  let ?L = "ExecWithoutWorkspace_loop md inp p od n 1 (Float4_of_int 0, Float4_load inp p)"
  have i: "lane (fst ?L') k = lane (fst ?L) k" if "k < 4" for k
    by (simp only: loop_lanes(1)[OF that] naive_scan_neg)
  have v: "lane (snd ?L') k = lane (map_Float4 uminus (snd ?L)) k" if "k < 4" for k
    by (simp only: loop_lanes(2)[OF that] naive_scan_neg lane_map)
  show "fst ?L' = fst ?L" using i by (rule Float4_eqI)
  show "snd ?L' = map_Float4 uminus (snd ?L)" using v by (rule Float4_eqI)
qed

lemma CompareC4_neg:
  fixes gv :: "('a::linordered_idom) Float4"
  shows "CompareC4 (if md = 0 then 1 else 0) (map_Float4 uminus gv) gi c e (- v, x) =
           (- fst (CompareC4 md gv gi c e (v, x)), snd (CompareC4 md gv gi c e (v, x)))"
proof (induction "e - c" arbitrary: c v x)
  case 0
  then have "\<not> c < e" by simp
  then show ?case by (simp add: CompareC4_unfold[of _ _ _ c])
next
  case (Suc d)
  then have c: "c < e" "d = e - Suc c" by simp_all
  show ?case
    using c(1) Suc.hyps(1)[OF c(2)]
    by (subst (1 2 3) CompareC4_unfold) (simp add: lane_map better_neg)
qed

lemma load_neg:
  fixes inp :: "nat \<Rightarrow> 'a::linordered_idom"
  shows "Float4_load (\<lambda>a. - inp a) p = map_Float4 uminus (Float4_load inp p)"
  by (simp add: Float4_load_def)

lemma channel_index_neg:
  fixes inp :: "nat \<Rightarrow> 'a::linordered_idom"
  shows "channel_index (if md = 0 then 1 else 0) (\<lambda>a. - inp a) p c4 r4 od =
         channel_index md inp p c4 r4 od"
proof -
  let ?L = "ExecWithoutWorkspace_loop md inp p od c4 1 (Float4_of_int 0, Float4_load inp p)"
  let ?gi = "fst ?L" and ?gv = "snd ?L"
  let ?x0 = "f32_mul (lane ?gi 0) (f32 4)"
  let ?cv = "Float4_load inp (p + c4 * od)" and ?ci = "Float4_of_int c4"
  define F1 where "F1 = (if c4 \<noteq> 0 then CompareC4 md ?gv ?gi 1 4 (lane ?gv 0, ?x0)
                         else (lane ?gv 0, ?x0))"
  define F1' where "F1' = (if c4 \<noteq> 0
       then CompareC4 (if md = 0 then 1 else 0) (map_Float4 uminus ?gv) ?gi 1 4
              (lane (map_Float4 uminus ?gv) 0, ?x0)
       else (lane (map_Float4 uminus ?gv) 0, ?x0))"
  define F2 where "F2 = (if r4 \<noteq> 0 then CompareC4 md ?cv ?ci 0 r4 F1 else F1)"
  define F2' where "F2' = (if r4 \<noteq> 0
       then CompareC4 (if md = 0 then 1 else 0) (map_Float4 uminus ?cv) ?ci 0 r4 F1' else F1')"
  have F1': "F1' = (- fst F1, snd F1)"
    by (simp add: F1'_def F1_def CompareC4_neg lane_map)
  have "snd F2' = snd F2"
  proof (cases "r4 = 0")
    case True
    then show ?thesis by (simp add: F2'_def F2_def F1')
  next
    case False
    have "CompareC4 (if md = 0 then 1 else 0) (map_Float4 uminus ?cv) ?ci 0 r4 (- fst F1, snd F1) =
          (- fst (CompareC4 md ?cv ?ci 0 r4 (fst F1, snd F1)),
           snd (CompareC4 md ?cv ?ci 0 r4 (fst F1, snd F1)))"
      by (rule CompareC4_neg)
    then show ?thesis using False by (simp add: F2'_def F2_def F1')
  qed
  moreover have "channel_index md inp p c4 r4 od = snd F2"
    by (simp only: channel_index_def index_final_of_def Let_def F2_def F1_def)
  moreover have "channel_index (if md = 0 then 1 else 0) (\<lambda>a. - inp a) p c4 r4 od = snd F2'"
    unfolding channel_index_def index_final_of_def Let_def loop_neg
    by (simp only: load_neg F2'_def F1'_def)
  ultimately show ?thesis by simp
qed

subsection \<open>Status and the choice of the strategy\<close>

lemma Exec_status:
  "status (Exec t param input output ws) =
     (if axis param \<in> {0, 1, 2, 3} then TNN_OK
      else TNNERR_PARAM_ERR ''argmax or argmin axis not support'')"
  by (simp add: Exec_def Let_def ExecWithWorkspace_def ExecImpl_def ExecDimC_def ExecDimW_def
      split_beta)

lemma DoForward_Exec:
  assumes "supported input output"
  shows "DoForward param input output ws =
           Exec (if data_type input = DATA_TYPE_FLOAT then T_float else T_bfp16_t) param input output ws"
    and "GetBytesSize (data_type input) =
           sizeof_T (if data_type input = DATA_TYPE_FLOAT then T_float else T_bfp16_t)"
  using assms by (auto simp: supported_def DoForward_def Let_def)

lemma DoForward_status:
  "status (DoForward param input output ws) =
     (if \<not> supported input output then TNNERR_MODEL_ERR ''Error: layer acc dont support datatype''
      else if axis param \<in> {0, 1, 2, 3} then TNN_OK
      else TNNERR_PARAM_ERR ''argmax or argmin axis not support'')"
  by (auto simp: DoForward_def Let_def supported_def Exec_status)

lemma Exec_neg:
  fixes input :: "('a::linordered_idom) Blob"
  assumes "GetBytesSize (data_type input) = sizeof_T t"
    and p': "axis p' = axis param" "mode p' = (if mode param = 0 then 1 else 0)"
    and i': "dims i' = dims input" "data_type i' = data_type input"
            "base i' = (\<lambda>a. - base input a)"
  shows "out_base (Exec t p' i' output ws') a = out_base (Exec t param input output ws) a"
proof -
  have s: "GetBytesSize (data_type i') = sizeof_T t" using assms by simp
  have m: "(if mode p' = 0 then 0 else 1) = (if (if mode param = 0 then 0 else 1) = (0::int) then 1 else (0::int))"
    using p'(2) by simp
  consider "axis param = 0" | "axis param = 1" | "axis param = 2" | "axis param = 3"
    | "axis param \<notin> {0, 1, 2, 3}" by auto
  then show ?thesis
  proof cases
    case 1
    then have ax: "axis p' = 0" using p' by simp
    show ?thesis
      unfolding Exec_unfold(1)[OF ax] Exec_unfold(1)[OF 1] i'(1)
        ExecWithWorkspace_out[OF workspace_dvd4(1) s] ExecWithWorkspace_out[OF workspace_dvd4(1) assms(1)]
      by (simp only: p'(2) i' naive_scan_neg)
  next
    case 2
    then have ax: "axis p' = 1" using p' by simp
    show ?thesis
      unfolding Exec_unfold(2)[OF ax] Exec_unfold(2)[OF 2] ExecDimC_out i'(1) m
      by (simp only: i' channel_index_neg)
  next
    case 3
    then have ax: "axis p' = 2" using p' by simp
    show ?thesis
      unfolding Exec_unfold(3)[OF ax] Exec_unfold(3)[OF 3] i'(1)
        ExecWithWorkspace_out[OF workspace_dvd4(2) s] ExecWithWorkspace_out[OF workspace_dvd4(2) assms(1)]
      by (simp only: p'(2) i' naive_scan_neg)
  next
    case 4
    then have ax: "axis p' = 3" using p' by simp
    show ?thesis
      unfolding Exec_unfold(4)[OF ax] Exec_unfold(4)[OF 4] ExecDimW_out i'(1) m
      by (simp only: i' naive_scan_neg)
  next
    case 5
    then have ax: "axis p' \<notin> {0, 1, 2, 3}" using p'(1) by simp
    show ?thesis by (simp only: Exec_unfold(5)[OF 5] Exec_unfold(5)[OF ax] Run.simps)
  qed
qed

lemma DoForward_neg:
  fixes input :: "('a::linordered_idom) Blob"
  shows "out_base (DoForward (param\<lparr>mode := (if mode param = 0 then 1 else 0)\<rparr>)
                     (input\<lparr>base := (\<lambda>a. - base input a)\<rparr>) output ws') =
         out_base (DoForward param input output ws)"
proof (cases "supported input output")
  case True
  then have s: "supported (input\<lparr>base := (\<lambda>a. - base input a)\<rparr>) output"
    by (simp add: supported_def)
  show ?thesis
  proof (rule ext)
    fix a
    have "out_base (Exec (if data_type input = DATA_TYPE_FLOAT then T_float else T_bfp16_t)
                      (param\<lparr>mode := (if mode param = 0 then 1 else 0)\<rparr>)
                      (input\<lparr>base := (\<lambda>a. - base input a)\<rparr>) output ws') a =
          out_base (Exec (if data_type input = DATA_TYPE_FLOAT then T_float else T_bfp16_t)
                      param input output ws) a"
      by (rule Exec_neg[OF DoForward_Exec(2)[OF True]]) simp_all
    then show "out_base (DoForward (param\<lparr>mode := (if mode param = 0 then 1 else 0)\<rparr>)
                     (input\<lparr>base := (\<lambda>a. - base input a)\<rparr>) output ws') a =
         out_base (DoForward param input output ws) a"
      unfolding DoForward_Exec(1)[OF True] DoForward_Exec(1)[OF s] by simp
  qed
next
  case False
  then show ?thesis by (auto simp: supported_def DoForward_def Let_def)
qed

subsection \<open>Tensors within the 32-bit range\<close>

lemma int32_prod: "x * y < 2 ^ 31 \<Longrightarrow> int32 (int x * int y) = int (x * y)"
  using int32_nat[of "x * y"] by simp

lemma int32_prod4: "x * 4 < 2 ^ 31 \<Longrightarrow> int32 (int x * 4) = int (x * 4)"
  using int32_nat[of "x * 4"] by simp

lemma UP_DIV_pos: "0 < c \<Longrightarrow> 0 < UP_DIV c 4"
  using mult_div_mod_eq[of 4 c] by (cases "c mod 4 = 0") (auto simp: UP_DIV_4)

lemma fits_products:
  fixes N U H W M :: nat
  assumes "0 < N" "0 < U" "0 < H" "0 < W" "N * (U * 4) * H * W < M"
  shows "U * 4 * H < M" "U * 4 * H * W < M" "H * W < M" "H * W * 4 < M"
    "N * (U * 4) < M" "W * 4 < M" "N * U < M" "N * U * H < M"
proof -
  have e: "\<And>x k. x * k = N * (U * 4) * H * W \<Longrightarrow> 0 < k \<Longrightarrow> x < M"
  proof -
    fix x k :: nat
    assume a: "x * k = N * (U * 4) * H * W" "0 < k"
    have "x \<le> x * k" using a(2) by (rule le_mult_right)
    then show "x < M" using a(1) assms(5) by simp
  qed
  show "U * 4 * H < M" by (rule e[of _ "N * W"]) (use assms in \<open>simp_all add: mult_ac\<close>)
  show "U * 4 * H * W < M" by (rule e[of _ "N"]) (use assms in \<open>simp_all add: mult_ac\<close>)
  show "H * W < M" by (rule e[of _ "N * (U * 4)"]) (use assms in \<open>simp_all add: mult_ac\<close>)
  show "H * W * 4 < M" by (rule e[of _ "N * U"]) (use assms in \<open>simp_all add: mult_ac\<close>)
  show "N * (U * 4) < M" by (rule e[of _ "H * W"]) (use assms in \<open>simp_all add: mult_ac\<close>)
  show "W * 4 < M" by (rule e[of _ "N * U * H"]) (use assms in \<open>simp_all add: mult_ac\<close>)
  show "N * U < M" by (rule e[of _ "4 * H * W"]) (use assms in \<open>simp_all add: mult_ac\<close>)
  show "N * U * H < M" by (rule e[of _ "4 * W"]) (use assms in \<open>simp_all add: mult_ac\<close>)
qed

text \<open>On such a tensor the \<^verbatim>\<open>int\<close> products are the products of the extents.\<close>

lemma fits_int32:
  assumes "fits ax input"
  defines "d \<equiv> dims input"
  shows "int32 (int32 (int (ROUND_UP (dim1 d) 4) * int (dim2 d)) * int (dim3 d)) =
           int (ROUND_UP (dim1 d) 4 * dim2 d * dim3 d)"
    and "int32 (int32 (int (dim2 d) * int (dim3 d)) * 4) = int (dim2 d * dim3 d * 4)"
    and "int_div (int32 (int (dim0 d) * int (ROUND_UP (dim1 d) 4))) 4 = int (dim0 d * UP_DIV (dim1 d) 4)"
    and "int32 (int (dim3 d) * 4) = int (dim3 d * 4)"
    and "int32 (int32 (int (dim0 d) * int (UP_DIV (dim1 d) 4)) * int (dim2 d)) =
           int (dim0 d * UP_DIV (dim1 d) 4 * dim2 d)"
proof -
  have pos: "0 < dim0 d" "0 < UP_DIV (dim1 d) 4" "0 < dim2 d" "0 < dim3 d"
    using assms(1) by (simp_all add: fits_def d_def UP_DIV_pos)
  have el: "dim0 d * (UP_DIV (dim1 d) 4 * 4) * dim2 d * dim3 d < 2 ^ 31"
    using assms(1) by (simp add: fits_def d_def elems_def ROUND_UP_4)
  note P = fits_products[OF pos el]
  show "int32 (int32 (int (ROUND_UP (dim1 d) 4) * int (dim2 d)) * int (dim3 d)) =
           int (ROUND_UP (dim1 d) 4 * dim2 d * dim3 d)"
    unfolding ROUND_UP_4 by (simp only: int32_prod[OF P(1)] int32_prod[OF P(2)])
  show "int32 (int32 (int (dim2 d) * int (dim3 d)) * 4) = int (dim2 d * dim3 d * 4)"
    by (simp only: int32_prod[OF P(3)] int32_prod4[OF P(4)])
  show "int_div (int32 (int (dim0 d) * int (ROUND_UP (dim1 d) 4))) 4 = int (dim0 d * UP_DIV (dim1 d) 4)"
    unfolding ROUND_UP_4 by (simp only: int32_prod[OF P(5)] int_div_nat mult.assoc[symmetric] nonzero_mult_div_cancel_right)
  show "int32 (int (dim3 d) * 4) = int (dim3 d * 4)"
    by (simp only: int32_prod4[OF P(6)])
  show "int32 (int32 (int (dim0 d) * int (UP_DIV (dim1 d) 4)) * int (dim2 d)) =
           int (dim0 d * UP_DIV (dim1 d) 4 * dim2 d)"
    by (simp only: int32_prod[OF P(7)] int32_prod[OF P(8)])
qed

lemma fits_workspace:
  assumes "fits ax input" "ax = 0 \<or> ax = 2"
  shows "int32 (int (if ax = 0 then ROUND_UP (dim1 (dims input)) 4 * dim2 (dims input) * dim3 (dims input)
                     else dim3 (dims input) * 4) *
                int (GetBytesSize (data_type input))) =
         int ((if ax = 0 then ROUND_UP (dim1 (dims input)) 4 * dim2 (dims input) * dim3 (dims input)
               else dim3 (dims input) * 4) * GetBytesSize (data_type input))"
proof -
  have "workspace_size ax input < 2 ^ 31" using assms by (auto simp: fits_def)
  then show ?thesis unfolding workspace_size_def by (rule int32_prod)
qed

subsection \<open>By flat offset\<close>

lemma Exec_axis0:
  assumes "axis param = 0" "GetBytesSize (data_type input) = sizeof_T t" "fits (axis param) input"
  shows "out_base (Exec t param input output ws) a =
           (if a < 1 * (ROUND_UP (dim1 (dims input)) 4 * dim2 (dims input) * dim3 (dims input))
            then Idx (f32 (naive_scan (mode param)
                   (\<lambda>r. base input
                      (a div (ROUND_UP (dim1 (dims input)) 4 * dim2 (dims input) * dim3 (dims input)) *
                         dim0 (dims input) * (ROUND_UP (dim1 (dims input)) 4 * dim2 (dims input) * dim3 (dims input)) +
                       r * (ROUND_UP (dim1 (dims input)) 4 * dim2 (dims input) * dim3 (dims input)) +
                       a mod (ROUND_UP (dim1 (dims input)) 4 * dim2 (dims input) * dim3 (dims input))))
                   (dim0 (dims input))))
            else base output a)"
proof -
  have E: "Exec t param input output ws =
       ExecWithWorkspace t param input output ws (int (GetBytesSize (data_type input))) 1
         (int (dim0 (dims input)))
         (int (ROUND_UP (dim1 (dims input)) 4 * dim2 (dims input) * dim3 (dims input)))"
    by (simp only: Exec_unfold(1)[OF assms(1)] fits_int32(1)[OF assms(3)])
  have d: "4 dvd nat (int (ROUND_UP (dim1 (dims input)) 4 * dim2 (dims input) * dim3 (dims input)))"
    by (simp only: nat_int ROUND_UP_4) simp
  show ?thesis unfolding E ExecWithWorkspace_out[OF d assms(2)]
    by (simp only: nat_int nat_one_as_int[symmetric])
qed

lemma Exec_axis2:
  assumes "axis param = 2" "GetBytesSize (data_type input) = sizeof_T t" "fits (axis param) input"
  shows "out_base (Exec t param input output ws) a =
           (if a < dim0 (dims input) * UP_DIV (dim1 (dims input)) 4 * (dim3 (dims input) * 4)
            then Idx (f32 (naive_scan (mode param)
                   (\<lambda>r. base input
                      (a div (dim3 (dims input) * 4) * dim2 (dims input) * (dim3 (dims input) * 4) +
                       r * (dim3 (dims input) * 4) + a mod (dim3 (dims input) * 4)))
                   (dim2 (dims input))))
            else base output a)"
proof -
  have E: "Exec t param input output ws =
       ExecWithWorkspace t param input output ws (int (GetBytesSize (data_type input)))
         (int (dim0 (dims input) * UP_DIV (dim1 (dims input)) 4))
         (int (dim2 (dims input))) (int (dim3 (dims input) * 4))"
    by (simp only: Exec_unfold(3)[OF assms(1)] fits_int32(3,4)[OF assms(3)])
  have d: "4 dvd nat (int (dim3 (dims input) * 4))" by (simp only: nat_int) simp
  show ?thesis unfolding E ExecWithWorkspace_out[OF d assms(2)]
    by (simp only: nat_int nat_one_as_int[symmetric])
qed

lemma Exec_axis3:
  assumes "axis param = 3" "fits (axis param) input"
  shows "out_base (Exec t param input output ws) a =
           (if a < dim0 (dims input) * UP_DIV (dim1 (dims input)) 4 * dim2 (dims input) * 4
            then stored t (f32 (naive_scan (mode param)
                   (\<lambda>r. base input (a div 4 * dim3 (dims input) * 4 + r * 4 + a mod 4))
                   (dim3 (dims input))))
            else base output a)"
  unfolding Exec_unfold(4)[OF assms(1)] ExecDimW_out fits_int32(5)[OF assms(2)]
  by (simp only: nat_int naive_scan_mode_param)

lemma Exec_axis1:
  assumes "axis param = 1" "fits (axis param) input"
  shows "out_base (Exec t param input output ws) a =
           (if a < dim0 (dims input) * (dim2 (dims input) * dim3 (dims input) * 4)
            then (if a mod 4 = 0
                  then stored t (channel_index (if mode param = 0 then 0 else 1) (base input)
                         (a div (dim2 (dims input) * dim3 (dims input) * 4) * UP_DIV (dim1 (dims input)) 4 *
                            (dim2 (dims input) * dim3 (dims input) * 4) +
                          a mod (dim2 (dims input) * dim3 (dims input) * 4))
                         (dim1 (dims input) div 4) (dim1 (dims input) mod 4)
                         (dim2 (dims input) * dim3 (dims input) * 4))
                  else stored t 0)
            else base output a)"
  unfolding Exec_unfold(2)[OF assms(1)] ExecDimC_out fits_int32(2)[OF assms(2)]
  by (simp only: nat_int)

subsection \<open>By tensor position\<close>

lemma nest_less: "(x::nat) < X \<Longrightarrow> y < Y \<Longrightarrow> x * Y + y < X * Y"
proof -
  assume a: "x < X" "y < Y"
  then have "x * Y + y < x * Y + Y" by simp
  also have "\<dots> = Suc x * Y" by simp
  also have "\<dots> \<le> X * Y" using a(1) by (intro mult_le_mono1) simp
  finally show ?thesis .
qed

lemma UP_DIV_div_less: "c < C \<Longrightarrow> c div 4 < UP_DIV C 4"
proof -
  assume "c < C"
  then have "c div 4 \<le> C div 4" by (simp add: div_le_mono)
  moreover have "c div 4 < C div 4 \<or> C mod 4 \<noteq> 0"
  proof (rule ccontr)
    assume "\<not> (c div 4 < C div 4 \<or> C mod 4 \<noteq> 0)"
    then have "C div 4 \<le> c div 4" "C mod 4 = 0" by auto
    then have "C = 4 * (C div 4)" by (metis mult_div_mod_eq add.right_neutral)
    also have "\<dots> \<le> 4 * (c div 4)" using \<open>C div 4 \<le> c div 4\<close> by simp
    also have "\<dots> \<le> c" by simp
    finally show False using \<open>c < C\<close> by simp
  qed
  ultimately show ?thesis by (auto simp: UP_DIV_4)
qed

lemma position_axis0:
  assumes "c < dim1 d" "h < dim2 d" "w < dim3 d"
  defines "od \<equiv> ROUND_UP (dim1 d) 4 * dim2 d * dim3 d"
  defines "a \<equiv> offset (d\<lparr>dim0 := 1\<rparr>) 0 c h w"
  shows "a < od" and "r * od + a = offset d r c h w"
proof -
  have "c div 4 < UP_DIV (dim1 d) 4" using assms(1) by (rule UP_DIV_div_less)
  then have "c div 4 * dim2 d + h < UP_DIV (dim1 d) 4 * dim2 d" using assms(2) by (rule nest_less)
  then have "(c div 4 * dim2 d + h) * dim3 d + w < UP_DIV (dim1 d) 4 * dim2 d * dim3 d"
    using assms(3) by (rule nest_less)
  moreover have "c mod 4 < 4" by simp
  ultimately have "((c div 4 * dim2 d + h) * dim3 d + w) * 4 + c mod 4 < UP_DIV (dim1 d) 4 * dim2 d * dim3 d * 4"
    by (rule nest_less)
  then show "a < od" by (simp add: a_def od_def offset_def ROUND_UP_4 mult_ac)
  show "r * od + a = offset d r c h w"
    by (simp add: a_def od_def offset_def ROUND_UP_4 algebra_simps)
qed

lemma flat_split:
  assumes "i < inner" "j < (od::nat)"
  shows "i * od + j < inner * od" "(i * od + j) div od = i" "(i * od + j) mod od = j"
  using assms by (simp_all add: nest_less)

lemma Exec_position0:
  assumes "axis param = 0" "GetBytesSize (data_type input) = sizeof_T t" "fits (axis param) input"
    and "c < dim1 (dims input)" "h < dim2 (dims input)" "w < dim3 (dims input)"
  shows "out_base (Exec t param input output ws) (offset ((dims input)\<lparr>dim0 := 1\<rparr>) 0 c h w) =
           Idx (f32 (naive_scan (mode param) (\<lambda>r. base input (offset (dims input) r c h w))
                     (dim0 (dims input))))"
proof -
  let ?d = "dims input"
  let ?od = "ROUND_UP (dim1 ?d) 4 * dim2 ?d * dim3 ?d"
  let ?a = "offset (?d\<lparr>dim0 := 1\<rparr>) 0 c h w"
  note P = position_axis0[OF assms(4-6)]
  have "?a div ?od = 0" "?a mod ?od = ?a" using P(1) by simp_all
  then show ?thesis
    unfolding Exec_axis0[OF assms(1-3)] using P(1) P(2) by (simp add: add.commute)
qed

lemma Exec_position2:
  assumes "axis param = 2" "GetBytesSize (data_type input) = sizeof_T t" "fits (axis param) input"
    and "n < dim0 (dims input)" "c < dim1 (dims input)" "w < dim3 (dims input)"
  shows "out_base (Exec t param input output ws) (offset ((dims input)\<lparr>dim2 := 1\<rparr>) n c 0 w) =
           Idx (f32 (naive_scan (mode param) (\<lambda>r. base input (offset (dims input) n c r w))
                     (dim2 (dims input))))"
proof -
  let ?d = "dims input"
  let ?od = "dim3 ?d * 4"
  let ?i = "n * UP_DIV (dim1 ?d) 4 + c div 4"
  let ?j = "w * 4 + c mod 4"
  have a: "offset (?d\<lparr>dim2 := 1\<rparr>) n c 0 w = ?i * ?od + ?j"
    by (simp add: offset_def algebra_simps)
  have i: "?i < dim0 ?d * UP_DIV (dim1 ?d) 4"
    using assms(4) UP_DIV_div_less[OF assms(5)] by (rule nest_less)
  have j: "?j < ?od" using assms(6) by (rule nest_less) simp
  note F = flat_split[OF i j]
  have "?i * dim2 ?d * ?od + r * ?od + ?j = offset ?d n c r w" for r
    by (simp add: offset_def algebra_simps)
  then show ?thesis
    unfolding Exec_axis2[OF assms(1-3)] a using F by simp
qed

lemma Exec_position3:
  assumes "axis param = 3" "fits (axis param) input"
    and "n < dim0 (dims input)" "c < dim1 (dims input)" "h < dim2 (dims input)"
  shows "out_base (Exec t param input output ws) (offset ((dims input)\<lparr>dim3 := 1\<rparr>) n c h 0) =
           stored t (f32 (naive_scan (mode param) (\<lambda>r. base input (offset (dims input) n c h r))
                     (dim3 (dims input))))"
proof -
  let ?d = "dims input"
  let ?i = "(n * UP_DIV (dim1 ?d) 4 + c div 4) * dim2 ?d + h"
  let ?j = "c mod 4"
  have a: "offset (?d\<lparr>dim3 := 1\<rparr>) n c h 0 = ?i * 4 + ?j"
    by (simp add: offset_def)
  have "n * UP_DIV (dim1 ?d) 4 + c div 4 < dim0 ?d * UP_DIV (dim1 ?d) 4"
    using assms(3) UP_DIV_div_less[OF assms(4)] by (rule nest_less)
  then have i: "?i < dim0 ?d * UP_DIV (dim1 ?d) 4 * dim2 ?d"
    using assms(5) by (rule nest_less)
  have j: "?j < 4" by simp
  note F = flat_split[OF i j]
  have "?i * dim3 ?d * 4 + r * 4 + ?j = offset ?d n c h r" for r
    by (simp add: offset_def algebra_simps)
  then show ?thesis
    unfolding Exec_axis3[OF assms(1,2)] a using F by simp
qed

lemma Exec_position1:
  assumes "axis param = 1" "fits (axis param) input"
    and "n < dim0 (dims input)" "h < dim2 (dims input)" "w < dim3 (dims input)"
  shows "out_base (Exec t param input output ws) (offset ((dims input)\<lparr>dim1 := 1\<rparr>) n 0 h w) =
           stored t (channel_index (if mode param = 0 then 0 else 1) (base input)
                       (offset (dims input) n 0 h w)
                       (dim1 (dims input) div 4) (dim1 (dims input) mod 4)
                       (dim2 (dims input) * dim3 (dims input) * 4))"
proof -
  let ?d = "dims input"
  let ?od = "dim2 ?d * dim3 ?d * 4"
  let ?j = "(h * dim3 ?d + w) * 4"
  have a: "offset (?d\<lparr>dim1 := 1\<rparr>) n 0 h w = n * ?od + ?j"
    by (simp add: offset_def UP_DIV_def algebra_simps)
  have "h * dim3 ?d + w < dim2 ?d * dim3 ?d" using assms(4,5) by (rule nest_less)
  then have j: "?j < ?od" by simp
  note F = flat_split[OF assms(3) j]
  have m: "(n * ?od + ?j) mod 4 = 0" by simp
  have "n * UP_DIV (dim1 ?d) 4 * ?od + ?j = offset ?d n 0 h w"
    by (simp add: offset_def algebra_simps)
  then show ?thesis
    unfolding Exec_axis1[OF assms(1,2)] a using F m by simp
qed

text \<open>The input cells a group of the channel axis reads, as tensor positions.\<close>

lemma channel_cells:
  "offset d n 0 h w + c div 4 * (dim2 d * dim3 d * 4) + c mod 4 = offset d n c h w"
  by (simp add: offset_def algebra_simps)

section \<open>Facts about \<^verbatim>\<open>DoForward\<close>\<close>

subsection \<open>The cell at a tensor position\<close>

lemma float_store_type:
  assumes "supported input output" "float_store param input" "axis param = 1 \<or> axis param = 3"
  shows "(if data_type input = DATA_TYPE_FLOAT then T_float else T_bfp16_t) = T_float"
  using assms by (auto simp: float_store_def)

text \<open>Batch, height and width: the rounded index of the naive scan.\<close>

lemma DoForward_rounded:
  assumes "supported input output" "float_store param input" "fits (axis param) input"
    and "axis param \<in> {0, 2, 3}"
    and "n < dim0 (dims input)" "c < dim1 (dims input)" "h < dim2 (dims input)" "w < dim3 (dims input)"
  shows "out_base (DoForward param input output ws) (out_pos (axis param) (dims input) n c h w) =
           Idx (f32 (naive_index (axis param) (mode param) input n c h w))"
proof -
  note E = DoForward_Exec[OF assms(1)]
  consider "axis param = 0" | "axis param = 2" | "axis param = 3"
    using assms(4) by auto
  then show ?thesis
  proof cases
    case 1
    then show ?thesis unfolding E(1)
      using Exec_position0[OF 1 E(2) assms(3,6-8)]
      by (simp add: out_pos_def in_pos_def extent_def reduced_def naive_index_def)
  next
    case 2
    then show ?thesis unfolding E(1)
      using Exec_position2[OF 2 E(2) assms(3,5,6,8)]
      by (simp add: out_pos_def in_pos_def extent_def reduced_def naive_index_def)
  next
    case 3
    then have t: "(if data_type input = DATA_TYPE_FLOAT then T_float else T_bfp16_t) = T_float"
      using float_store_type[OF assms(1,2)] by simp
    show ?thesis unfolding E(1) t
      using Exec_position3[OF 3 assms(3,5-7), of T_float] 3
      by (simp add: out_pos_def in_pos_def extent_def reduced_def naive_index_def)
  qed
qed

text \<open>Channel: the index of the group.\<close>

lemma DoForward_channel:
  assumes "supported input output" "float_store param input" "fits (axis param) input"
    and "axis param = 1"
    and "n < dim0 (dims input)" "h < dim2 (dims input)" "w < dim3 (dims input)"
  shows "out_base (DoForward param input output ws) (out_pos (axis param) (dims input) n c h w) =
           Idx (channel_index (if mode param = 0 then 0 else 1) (base input)
                  (offset (dims input) n 0 h w)
                  (dim1 (dims input) div 4) (dim1 (dims input) mod 4)
                  (dim2 (dims input) * dim3 (dims input) * 4))"
proof -
  note E = DoForward_Exec[OF assms(1)]
  have t: "(if data_type input = DATA_TYPE_FLOAT then T_float else T_bfp16_t) = T_float"
    using float_store_type[OF assms(1,2)] assms(4) by simp
  show ?thesis unfolding E(1) t
    using Exec_position1[OF assms(4,3,5-7), of T_float] assms(4)
    by (simp add: out_pos_def reduced_def)
qed

text \<open>All four axes, while every index of the reduced axis is a float.\<close>

lemma DoForward_position:
  assumes "supported input output" "float_store param input" "fits (axis param) input"
    and "exact_indices (axis param) (dims input)" "axis param \<in> {0, 1, 2, 3}"
    and "n < dim0 (dims input)" "c < dim1 (dims input)" "h < dim2 (dims input)" "w < dim3 (dims input)"
  shows "out_base (DoForward param input output ws) (out_pos (axis param) (dims input) n c h w) =
           Idx (naive_index (axis param) (mode param) input n c h w)"
proof (cases "axis param = 1")
  case True
  let ?d = "dims input"
  have r4: "dim1 ?d mod 4 < 4" by simp
  have C: "4 * (dim1 ?d div 4) + dim1 ?d mod 4 = dim1 ?d" by (rule mult_div_mod_eq)
  have le: "4 * (dim1 ?d div 4) + dim1 ?d mod 4 \<le> 2 ^ 24 + 1"
    using assms(4) True unfolding C by (simp add: exact_indices_def extent_def)
  show ?thesis
    unfolding DoForward_channel[OF assms(1-3) True assms(6,8,9)]
      channel_index_exact[OF r4 le] C channel_cells naive_scan_mode_param
    using True by (simp add: naive_index_def in_pos_def extent_def)
next
  case False
  then have ax: "axis param \<in> {0, 2, 3}" using assms(5) by auto
  have "0 < extent (axis param) (dims input)"
    using assms(6-9) by (auto simp: extent_def)
  then have "naive_index (axis param) (mode param) input n c h w < extent (axis param) (dims input)"
    unfolding naive_index_def by (rule naive_scan_less)
  then have "naive_index (axis param) (mode param) input n c h w \<le> 2 ^ 24"
    using assms(4) by (simp add: exact_indices_def)
  then show ?thesis
    unfolding DoForward_rounded[OF assms(1-3) ax assms(6-9)] by (simp add: f32_exact)
qed

subsection \<open>The written range\<close>

lemma bound_axis:
  "elems (reduced 0 d) = 1 * (ROUND_UP (dim1 d) 4 * dim2 d * dim3 d)"
  "elems (reduced 1 d) = dim0 d * (dim2 d * dim3 d * 4)"
  "elems (reduced 2 d) = dim0 d * UP_DIV (dim1 d) 4 * (dim3 d * 4)"
  "elems (reduced 3 d) = dim0 d * UP_DIV (dim1 d) 4 * dim2 d * 4"
  by (simp_all add: elems_def reduced_def ROUND_UP_def UP_DIV_def)

lemma DoForward_written:
  assumes "supported input output" "float_store param input" "fits (axis param) input"
    and "exact_indices (axis param) (dims input)" "axis param \<in> {0, 1, 2, 3}"
  shows "if a < elems (reduced (axis param) (dims input))
         then (\<exists>k<extent (axis param) (dims input).
                 out_base (DoForward param input output ws) a = Idx k) \<and>
              (axis param = 1 \<and> a mod 4 \<noteq> 0 \<longrightarrow> out_base (DoForward param input output ws) a = Idx 0)
         else out_base (DoForward param input output ws) a = base output a"
proof -
  note E = DoForward_Exec[OF assms(1)]
  have pos: "0 < extent (axis param) (dims input)"
    using assms(3) by (simp add: fits_def extent_def)
  have small: "extent (axis param) (dims input) \<le> 2 ^ 24 + 1"
    using assms(4) by (simp add: exact_indices_def)
  have scan: "\<exists>k<extent (axis param) (dims input).
                (Idx (f32 (naive_scan md f (extent (axis param) (dims input)))) :: 'a cell) = Idx k"
    for md and f :: "nat \<Rightarrow> 'a"
  proof -
    have l: "naive_scan md f (extent (axis param) (dims input)) < extent (axis param) (dims input)"
      using pos by (rule naive_scan_less)
    then have "naive_scan md f (extent (axis param) (dims input)) \<le> 2 ^ 24" using small by simp
    then have "f32 (naive_scan md f (extent (axis param) (dims input))) =
               naive_scan md f (extent (axis param) (dims input))" by (rule f32_exact)
    then show ?thesis using l by auto
  qed
  have zero: "\<exists>k<extent (axis param) (dims input). (Idx 0 :: 'a cell) = Idx k"
    using pos by (intro exI[of _ 0]) simp
  consider "axis param = 0" | "axis param = 1" | "axis param = 2" | "axis param = 3"
    using assms(5) by auto
  then show ?thesis
  proof cases
    case 1
    show ?thesis
      unfolding E(1) Exec_axis0[OF 1 E(2) assms(3)]
      using scan by (simp add: 1 bound_axis extent_def)
  next
    case 2
    have t: "(if data_type input = DATA_TYPE_FLOAT then T_float else T_bfp16_t) = T_float"
      using float_store_type[OF assms(1,2)] 2 by simp
    let ?d = "dims input"
    have r4: "dim1 ?d mod 4 < 4" by simp
    have C: "4 * (dim1 ?d div 4) + dim1 ?d mod 4 = dim1 ?d" by (rule mult_div_mod_eq)
    have le: "4 * (dim1 ?d div 4) + dim1 ?d mod 4 \<le> 2 ^ 24 + 1"
      using small 2 unfolding C by (simp add: extent_def)
    have ch: "\<exists>k<dim1 ?d. (Idx (channel_index md (base input) p (dim1 ?d div 4) (dim1 ?d mod 4) od) :: 'a cell) = Idx k"
      for md p od
      unfolding channel_index_exact[OF r4 le] C
      using naive_scan_less[of "dim1 ?d"] pos 2 by (simp add: extent_def)
    show ?thesis
      unfolding E(1) t Exec_axis1[OF 2 assms(3)]
      using ch zero by (simp add: 2 bound_axis extent_def)
  next
    case 3
    show ?thesis
      unfolding E(1) Exec_axis2[OF 3 E(2) assms(3)]
      using scan by (simp add: 3 bound_axis extent_def)
  next
    case 4
    have t: "(if data_type input = DATA_TYPE_FLOAT then T_float else T_bfp16_t) = T_float"
      using float_store_type[OF assms(1,2)] 4 by simp
    show ?thesis
      unfolding E(1) t Exec_axis3[OF 4 assms(3)]
      using scan by (simp add: 4 bound_axis extent_def)
  qed
qed

subsection \<open>Extents, workspace and pointer types\<close>

lemma Exec_effects:
  "axis param = 0 \<Longrightarrow>
     extents (Exec t param input output ws) =
       Some (1, int (dim0 (dims input)),
             int32 (int32 (int (ROUND_UP (dim1 (dims input)) 4) * int (dim2 (dims input))) *
                    int (dim3 (dims input)))) \<and>
     workspace_bytes (Exec t param input output ws) =
       Some (int32 (int32 (int32 (int (ROUND_UP (dim1 (dims input)) 4) * int (dim2 (dims input))) *
                           int (dim3 (dims input))) * int (GetBytesSize (data_type input)))) \<and>
     out_elem (Exec t param input output ws) = Some T_float"
  "axis param = 1 \<Longrightarrow>
     extents (Exec t param input output ws) =
       Some (int (dim0 (dims input)), int (UP_DIV (dim1 (dims input)) 4),
             int32 (int32 (int (dim2 (dims input)) * int (dim3 (dims input))) * 4)) \<and>
     workspace_bytes (Exec t param input output ws) = None \<and>
     out_elem (Exec t param input output ws) = Some t"
  "axis param = 2 \<Longrightarrow>
     extents (Exec t param input output ws) =
       Some (int_div (int32 (int (dim0 (dims input)) * int (ROUND_UP (dim1 (dims input)) 4))) 4,
             int (dim2 (dims input)), int32 (int (dim3 (dims input)) * 4)) \<and>
     workspace_bytes (Exec t param input output ws) =
       Some (int32 (int32 (int (dim3 (dims input)) * 4) * int (GetBytesSize (data_type input)))) \<and>
     out_elem (Exec t param input output ws) = Some T_float"
  "axis param = 3 \<Longrightarrow>
     extents (Exec t param input output ws) =
       Some (int32 (int32 (int (dim0 (dims input)) * int (UP_DIV (dim1 (dims input)) 4)) *
                    int (dim2 (dims input))),
             int (dim3 (dims input)), 4) \<and>
     workspace_bytes (Exec t param input output ws) = None \<and>
     out_elem (Exec t param input output ws) = Some t"
  by (simp_all add: Exec_def Let_def ExecWithWorkspace_def ExecImpl_def ExecDimC_def ExecDimW_def
      split_beta)

lemma Exec_effects_fits:
  assumes "fits (axis param) input"
  shows "axis param = 0 \<Longrightarrow>
     extents (Exec t param input output ws) =
       Some (int 1, int (dim0 (dims input)),
             int (ROUND_UP (dim1 (dims input)) 4 * dim2 (dims input) * dim3 (dims input))) \<and>
     workspace_bytes (Exec t param input output ws) =
       Some (int (ROUND_UP (dim1 (dims input)) 4 * dim2 (dims input) * dim3 (dims input) *
                  GetBytesSize (data_type input)))"
  "axis param = 1 \<Longrightarrow>
     extents (Exec t param input output ws) =
       Some (int (dim0 (dims input)), int (UP_DIV (dim1 (dims input)) 4),
             int (dim2 (dims input) * dim3 (dims input) * 4)) \<and>
     workspace_bytes (Exec t param input output ws) = None"
  "axis param = 2 \<Longrightarrow>
     extents (Exec t param input output ws) =
       Some (int (dim0 (dims input) * UP_DIV (dim1 (dims input)) 4), int (dim2 (dims input)),
             int (dim3 (dims input) * 4)) \<and>
     workspace_bytes (Exec t param input output ws) =
       Some (int (dim3 (dims input) * 4 * GetBytesSize (data_type input)))"
  "axis param = 3 \<Longrightarrow>
     extents (Exec t param input output ws) =
       Some (int (dim0 (dims input) * UP_DIV (dim1 (dims input)) 4 * dim2 (dims input)),
             int (dim3 (dims input)), int 4) \<and>
     workspace_bytes (Exec t param input output ws) = None"
proof -
  show "axis param = 0 \<Longrightarrow>
     extents (Exec t param input output ws) =
       Some (int 1, int (dim0 (dims input)),
             int (ROUND_UP (dim1 (dims input)) 4 * dim2 (dims input) * dim3 (dims input))) \<and>
     workspace_bytes (Exec t param input output ws) =
       Some (int (ROUND_UP (dim1 (dims input)) 4 * dim2 (dims input) * dim3 (dims input) *
                  GetBytesSize (data_type input)))"
  proof -
    assume ax: "axis param = 0"
    have w: "int32 (int (ROUND_UP (dim1 (dims input)) 4 * dim2 (dims input) * dim3 (dims input)) *
                    int (GetBytesSize (data_type input))) =
             int (ROUND_UP (dim1 (dims input)) 4 * dim2 (dims input) * dim3 (dims input) *
                  GetBytesSize (data_type input))"
      using fits_workspace[OF assms, unfolded ax] by simp
    show ?thesis
      using Exec_effects(1)[OF ax, of t "input" "output" ws]
      unfolding fits_int32(1)[OF assms] w by simp
  qed
  show "axis param = 1 \<Longrightarrow>
     extents (Exec t param input output ws) =
       Some (int (dim0 (dims input)), int (UP_DIV (dim1 (dims input)) 4),
             int (dim2 (dims input) * dim3 (dims input) * 4)) \<and>
     workspace_bytes (Exec t param input output ws) = None"
  proof -
    assume ax: "axis param = 1"
    show ?thesis
      using Exec_effects(2)[OF ax, of t "input" "output" ws]
      unfolding fits_int32(2)[OF assms] by simp
  qed
  show "axis param = 2 \<Longrightarrow>
     extents (Exec t param input output ws) =
       Some (int (dim0 (dims input) * UP_DIV (dim1 (dims input)) 4), int (dim2 (dims input)),
             int (dim3 (dims input) * 4)) \<and>
     workspace_bytes (Exec t param input output ws) =
       Some (int (dim3 (dims input) * 4 * GetBytesSize (data_type input)))"
  proof -
    assume ax: "axis param = 2"
    have w: "int32 (int (dim3 (dims input) * 4) * int (GetBytesSize (data_type input))) =
             int (dim3 (dims input) * 4 * GetBytesSize (data_type input))"
      using fits_workspace[OF assms, unfolded ax] by simp
    show ?thesis
      using Exec_effects(3)[OF ax, of t "input" "output" ws]
      unfolding fits_int32(3,4)[OF assms] w by simp
  qed
  show "axis param = 3 \<Longrightarrow>
     extents (Exec t param input output ws) =
       Some (int (dim0 (dims input) * UP_DIV (dim1 (dims input)) 4 * dim2 (dims input)),
             int (dim3 (dims input)), int 4) \<and>
     workspace_bytes (Exec t param input output ws) = None"
  proof -
    assume ax: "axis param = 3"
    show ?thesis
      using Exec_effects(4)[OF ax, of t "input" "output" ws]
      unfolding fits_int32(5)[OF assms] by simp
  qed
qed

subsection \<open>Evaluation: rounding and scans over sparse tensors\<close>

lemma bitlen_numeral: "bitlen (numeral k) = Suc (bitlen (numeral k div 2))"
  by (subst bitlen.simps) simp

lemma bitlen_Suc_0: "bitlen (Suc 0) = 1"
  by (simp add: bitlen.simps)

lemma f32_values:
  "f32 16777217 = 16777216"
  "f32 16777219 = 16777220"
  "f32 33554438 = 33554440"
  "f32 33554436 = 33554436"
  "f32 8388609 = 8388609"
  "f32 4194304 = 4194304"
  "f32 16777216 = 16777216"
  "f32 4 = 4" "f32 3 = 3" "f32 2 = 2" "f32 1 = 1" "f32 (Suc 0) = Suc 0"
  by (simp_all add: f32_def Let_def bitlen_numeral bitlen_Suc_0)

lemma naive_scan_peak:
  fixes f :: "nat \<Rightarrow> int"
  assumes "k < n" "f k = 1" "\<And>j. j < n \<Longrightarrow> j \<noteq> k \<Longrightarrow> f j = 0"
  shows "naive_scan 1 f n = k"
proof (rule naive_scan_eqI)
  have "\<not> better 1 (f j) (f k)" if "j < n" for j
    using assms(2) assms(3)[OF that] by (cases "j = k") (simp_all add: better_def)
  moreover have "f j \<noteq> f k" if "j < k" for j using assms(1,2) assms(3)[of j] that by simp
  ultimately show "first_extreme 1 f n k"
    using assms(1) by (simp add: first_extreme_def)
qed

lemma naive_scan_flat:
  assumes "\<And>j. j < n \<Longrightarrow> f j = v"
  shows "naive_scan md f n = 0"
  using assms
proof (induction n)
  case 0
  then show ?case by simp
next
  case (Suc n)
  then have IH: "naive_scan md f n = 0" by simp
  show ?case
  proof (cases "n = 0")
    case True
    then show ?thesis by simp
  next
    case False
    then have "f n = v" "f 0 = v" using Suc.prems by simp_all
    then show ?thesis by (simp add: IH Let_def)
  qed
qed

lemma loop_guards:
  "ExecWithoutWorkspace_loop md inp b od n 1 (Float4_of_int 0, Float4_load inp b) =
     (F4 (f32 (naive_scan md (\<lambda>r. inp (b + r * od + 0)) n))
         (f32 (naive_scan md (\<lambda>r. inp (b + r * od + 1)) n))
         (f32 (naive_scan md (\<lambda>r. inp (b + r * od + 2)) n))
         (f32 (naive_scan md (\<lambda>r. inp (b + r * od + 3)) n)),
      F4 (inp (b + naive_scan md (\<lambda>r. inp (b + r * od + 0)) n * od + 0))
         (inp (b + naive_scan md (\<lambda>r. inp (b + r * od + 1)) n * od + 1))
         (inp (b + naive_scan md (\<lambda>r. inp (b + r * od + 2)) n * od + 2))
         (inp (b + naive_scan md (\<lambda>r. inp (b + r * od + 3)) n * od + 3)))"
proof (rule prod_eqI)
  let ?L = "ExecWithoutWorkspace_loop md inp b od n 1 (Float4_of_int 0, Float4_load inp b)"
  let ?R = "(F4 (f32 (naive_scan md (\<lambda>r. inp (b + r * od + 0)) n))
         (f32 (naive_scan md (\<lambda>r. inp (b + r * od + 1)) n))
         (f32 (naive_scan md (\<lambda>r. inp (b + r * od + 2)) n))
         (f32 (naive_scan md (\<lambda>r. inp (b + r * od + 3)) n)),
      F4 (inp (b + naive_scan md (\<lambda>r. inp (b + r * od + 0)) n * od + 0))
         (inp (b + naive_scan md (\<lambda>r. inp (b + r * od + 1)) n * od + 1))
         (inp (b + naive_scan md (\<lambda>r. inp (b + r * od + 2)) n * od + 2))
         (inp (b + naive_scan md (\<lambda>r. inp (b + r * od + 3)) n * od + 3)))"
  show "fst ?L = fst ?R"
  proof (rule Float4_eqI)
    fix k :: nat assume k: "k < 4"
    show "lane (fst ?L) k = lane (fst ?R) k"
      unfolding loop_lanes(1)[OF k] using lane_cases[OF k] by (elim disjE) simp_all
  qed
  show "snd ?L = snd ?R"
  proof (rule Float4_eqI)
    fix k :: nat assume k: "k < 4"
    show "lane (snd ?L) k = lane (snd ?R) k"
      unfolding loop_lanes(2)[OF k] using lane_cases[OF k] by (elim disjE) simp_all
  qed
qed

lemma peaks_simps:
  "data_type (peaks n c h w ps) = DATA_TYPE_FLOAT"
  "dim0 (dims (peaks n c h w ps)) = n" "dim1 (dims (peaks n c h w ps)) = c"
  "dim2 (dims (peaks n c h w ps)) = h" "dim3 (dims (peaks n c h w ps)) = w"
  "base (peaks n c h w ps) a = (if a \<in> set ps then 1 else 0)"
  by (simp_all add: peaks_def)

lemma blank_simps:
  "data_type (blank ty) = ty" "base (blank ty) a = Keep 0"
  by (simp_all add: blank_def)

lemma channel_index_guards:
  "channel_index md inp p c4 r4 od =
     index_final_of md inp p c4 r4 od
       (F4 (f32 (naive_scan md (\<lambda>r. inp (p + r * od + 0)) c4))
           (f32 (naive_scan md (\<lambda>r. inp (p + r * od + 1)) c4))
           (f32 (naive_scan md (\<lambda>r. inp (p + r * od + 2)) c4))
           (f32 (naive_scan md (\<lambda>r. inp (p + r * od + 3)) c4)),
        F4 (inp (p + naive_scan md (\<lambda>r. inp (p + r * od + 0)) c4 * od + 0))
           (inp (p + naive_scan md (\<lambda>r. inp (p + r * od + 1)) c4 * od + 1))
           (inp (p + naive_scan md (\<lambda>r. inp (p + r * od + 2)) c4 * od + 2))
           (inp (p + naive_scan md (\<lambda>r. inp (p + r * od + 3)) c4 * od + 3)))"
  by (simp only: channel_index_def loop_guards)

section \<open>The claims\<close>

subsection \<open>Shared facts about the scenarios\<close>

lemma naive_scan_cong:
  assumes "\<And>c. c < n \<Longrightarrow> f c = g c"
  shows "naive_scan md f n = naive_scan md g n"
  using assms
proof (induction n)
  case 0
  then show ?case by simp
next
  case (Suc n)
  then have IH: "naive_scan md f n = naive_scan md g n" by simp
  show ?case
  proof (cases "n = 0")
    case True
    then show ?thesis by simp
  next
    case False
    then have "naive_scan md g n < Suc n" using naive_scan_less[of n md g] by simp
    then have "f (naive_scan md g n) = g (naive_scan md g n)" "f n = g n"
      using Suc.prems by simp_all
    then show ?thesis by (simp add: IH Let_def)
  qed
qed

lemma scenario_C_facts:
  "data_type scenario_C = DATA_TYPE_FLOAT"
  "dim0 (dims scenario_C) = 1" "dim1 (dims scenario_C) = 5"
  "dim2 (dims scenario_C) = 1" "dim3 (dims scenario_C) = 1"
  by (simp_all add: scenario_C_def)

lemma scenario_C_channels:
  "(\<lambda>c. base scenario_C (offset (dims scenario_C) 0 c 0 0)) =
   (\<lambda>c. if c < 5 then int c + 1 else 9)"
  by (simp add: scenario_C_def offset_def)

lemma scenario_C_scan_max: "naive_scan 1 (\<lambda>c. if c < 5 then int c + 1 else 9) 5 = 4"
  by code_simp

lemma scenario_C_scan_min: "naive_scan 0 (\<lambda>c. if c < 5 then int c + 1 else 9) 5 = 0"
  by code_simp

lemma scenario_C_supported: "supported scenario_C (blank DATA_TYPE_FLOAT)"
  by (simp add: supported_def scenario_C_def blank_def)

lemma scenario_C_fits: "fits ax scenario_C"
  by (simp add: fits_def elems_def workspace_size_def ROUND_UP_def scenario_C_facts)

lemma scenario_C_exact: "exact_indices ax (dims scenario_C)"
  by (simp add: exact_indices_def extent_def scenario_C_facts)

lemma scenario_C_out_pos: "out_pos 1 (dims scenario_C) 0 0 0 0 = 0"
  by (simp add: out_pos_def reduced_def offset_def)

lemma scenario_C_argmax:
  "out_base (DoForward \<lparr>mode = 1, axis = 1\<rparr> scenario_C (blank DATA_TYPE_FLOAT) scratch0) 0 = Idx 4"
  using DoForward_position[OF scenario_C_supported, of "\<lparr>mode = 1, axis = 1\<rparr>" 0 0 0 0 scratch0]
  by (simp add: scenario_C_facts scenario_C_fits scenario_C_exact float_store_def naive_index_def
      in_pos_def extent_def scenario_C_out_pos scenario_C_channels scenario_C_scan_max)

lemma three_channels_facts:
  "data_type three_channels = DATA_TYPE_FLOAT"
  "dim0 (dims three_channels) = 1" "dim1 (dims three_channels) = 3"
  "dim2 (dims three_channels) = 1" "dim3 (dims three_channels) = 1"
  by (simp_all add: three_channels_def)

lemma three_channels_scan:
  "naive_scan 1 (\<lambda>c. base three_channels (offset (dims three_channels) 0 c 0 0)) 3 = 2"
proof -
  have "(\<lambda>c. base three_channels (offset (dims three_channels) 0 c 0 0)) =
        (\<lambda>c. if c < 3 then int c + 1 else 9)"
    by (simp add: three_channels_def offset_def)
  moreover have "naive_scan 1 (\<lambda>c. if c < 3 then int c + 1 else 9) 3 = 2" by code_simp
  ultimately show ?thesis by simp
qed

text \<open>
  A tensor with an empty width, reduced along the width: the call succeeds and writes
  index 0, and the reduced axis has no position.
\<close>

lemma empty_width:
  "status (DoForward \<lparr>mode = 1, axis = 3\<rparr> (peaks 1 4 1 0 []) (blank DATA_TYPE_FLOAT) scratch0) = TNN_OK \<and>
   out_base (DoForward \<lparr>mode = 1, axis = 3\<rparr> (peaks 1 4 1 0 []) (blank DATA_TYPE_FLOAT) scratch0) 0 = Idx 0 \<and>
   extent 3 (dims (peaks 1 4 1 0 [])) = 0"
proof -
  have "supported (peaks 1 4 1 0 []) (blank DATA_TYPE_FLOAT)"
    by (simp add: supported_def peaks_simps blank_simps)
  then have "status (DoForward \<lparr>mode = 1, axis = 3\<rparr> (peaks 1 4 1 0 []) (blank DATA_TYPE_FLOAT) scratch0) = TNN_OK"
    by (simp add: DoForward_status)
  moreover have "out_base (DoForward \<lparr>mode = 1, axis = 3\<rparr> (peaks 1 4 1 0 []) (blank DATA_TYPE_FLOAT) scratch0) 0 = Idx 0"
    by (simp add: DoForward_def Exec_unfold ExecDimW_out peaks_simps blank_simps
      UP_DIV_def int32_def)
  ultimately show ?thesis by (simp add: extent_def peaks_simps)
qed

subsection \<open>C1: the reported index against a naive scan\<close>

text \<open>
  C1, as stated, fails. The indices are kept in 32-bit floats, and \<open>2^24 + 1\<close> is not a
  float. Width axis, \<open>mode = max\<close>, float input of shape (1, 4, 1, 16777218) that holds 0
  everywhere but for a 1 at \<open>(0, 0, 0, 16777217)\<close>: the naive scan finds 16777217, the cell of
  the output position \<open>(0, 0, 0, 0)\<close> holds 16777216.
\<close>

theorem C1_counterexample:
  "out_base (DoForward \<lparr>mode = 1, axis = 3\<rparr> (peaks 1 4 1 16777218 [67108868])
               (blank DATA_TYPE_FLOAT) scratch0)
     (out_pos 3 (dims (peaks 1 4 1 16777218 [67108868])) 0 0 0 0) = Idx 16777216 \<and>
   naive_index 3 1 (peaks 1 4 1 16777218 [67108868]) 0 0 0 0 = 16777217"
proof -
  let ?X = "peaks 1 4 1 16777218 [67108868]"
  have n: "naive_index 3 1 ?X 0 0 0 0 = 16777217"
    unfolding naive_index_def
    by (rule naive_scan_peak[THEN trans])
       (simp_all add: peaks_simps in_pos_def extent_def offset_def UP_DIV_def)
  have "out_base (DoForward \<lparr>mode = 1, axis = 3\<rparr> ?X (blank DATA_TYPE_FLOAT) scratch0)
          (out_pos (axis \<lparr>mode = 1, axis = 3\<rparr>) (dims ?X) 0 0 0 0) =
        Idx (f32 (naive_index (axis \<lparr>mode = 1, axis = 3\<rparr>) (mode \<lparr>mode = 1, axis = 3\<rparr>) ?X 0 0 0 0))"
    by (rule DoForward_rounded)
       (simp_all add: supported_def float_store_def fits_def elems_def ROUND_UP_def peaks_simps
          blank_simps)
  then show ?thesis using n by (simp add: f32_values)
qed

text \<open>
  C1, amended. For every input tensor of a supported element type whose indices are stored
  through a \<^verbatim>\<open>float *\<close> (float input on any axis, bfp16 input on the batch and height axes),
  with no empty extent, a padded element count and a workspace size below \<open>2^31\<close>, and a
  reduced axis of extent at most \<open>2^24 + 1\<close>, for every axis in \<open>{0, 1, 2, 3}\<close> and both modes,
  the cell at the output position that belongs to \<open>(n, c, h, w)\<close> is the float that holds the
  position a naive linear scan along the reduced axis finds; the scan moves only on a
  strictly better value, so ties go to the smallest index.
\<close>

theorem C1_index_is_naive_scan:
  assumes "supported input output" "float_store param input" "fits (axis param) input"
    and "exact_indices (axis param) (dims input)" "axis param \<in> {0, 1, 2, 3}"
    and "n < dim0 (dims input)" "c < dim1 (dims input)" "h < dim2 (dims input)" "w < dim3 (dims input)"
  shows "out_base (DoForward param input output ws) (out_pos (axis param) (dims input) n c h w) =
           Idx (naive_index (axis param) (mode param) input n c h w)"
  using assms by (rule DoForward_position)

text \<open>Scenario A: the maximum 5 sits at widths 1 and 2, and index 1 is reported.\<close>

theorem C1_witness:
  "supported scenario_A (blank DATA_TYPE_FLOAT) \<and> float_store \<lparr>mode = 1, axis = 3\<rparr> scenario_A \<and>
   fits (axis \<lparr>mode = 1, axis = 3\<rparr>) scenario_A \<and>
   exact_indices (axis \<lparr>mode = 1, axis = 3\<rparr>) (dims scenario_A) \<and>
   axis \<lparr>mode = 1, axis = 3\<rparr> \<in> {0, 1, 2, 3} \<and>
   0 < dim0 (dims scenario_A) \<and> 0 < dim1 (dims scenario_A) \<and>
   0 < dim2 (dims scenario_A) \<and> 0 < dim3 (dims scenario_A) \<and>
   out_base (DoForward \<lparr>mode = 1, axis = 3\<rparr> scenario_A (blank DATA_TYPE_FLOAT) scratch0) 0 = Idx 1"
  using C1_index_is_naive_scan[of scenario_A "blank DATA_TYPE_FLOAT" "\<lparr>mode = 1, axis = 3\<rparr>"
      0 0 0 0 scratch0]
  by (simp add: scenario_A_def blank_def supported_def float_store_def fits_def elems_def
      exact_indices_def ROUND_UP_def naive_index_def out_pos_def in_pos_def extent_def
      reduced_def offset_def UP_DIV_def numeral_3_eq_3 better_def)

subsection \<open>C2: the tie-break\<close>




subsection \<open>C3: the remainder group of the channel axis\<close>




subsection \<open>C4: unsupported element types\<close>

text \<open>
  C4. \<^verbatim>\<open>DoForward\<close> returns the unsupported-type error exactly when the output type is not
  float or the input type is neither float nor bfp16. A non-float output type fails
  whatever the input type, axis and mode are; a float output type with an unsupported
  input type fails next; in both cases the output memory is returned as it was, no output
  pointer was formed, no workspace was requested and no extents were computed.
\<close>

theorem C4_unsupported_type:
  "((\<exists>msg. status (DoForward param input output ws) = TNNERR_MODEL_ERR msg) \<longleftrightarrow>
      (data_type output \<noteq> DATA_TYPE_FLOAT \<or>
       (data_type input \<noteq> DATA_TYPE_FLOAT \<and> data_type input \<noteq> DATA_TYPE_BFP16))) \<and>
   (data_type output \<noteq> DATA_TYPE_FLOAT \<longrightarrow>
      DoForward param input output ws =
        \<lparr>status = TNNERR_MODEL_ERR ''Error: layer acc dont support datatype'',
         out_base = base output, out_elem = None, workspace_bytes = None, extents = None\<rparr>) \<and>
   (data_type output = DATA_TYPE_FLOAT \<and>
    data_type input \<noteq> DATA_TYPE_FLOAT \<and> data_type input \<noteq> DATA_TYPE_BFP16 \<longrightarrow>
      DoForward param input output ws =
        \<lparr>status = TNNERR_MODEL_ERR ''Error: layer acc dont support datatype'',
         out_base = base output, out_elem = None, workspace_bytes = None, extents = None\<rparr>)"
proof (intro conjI impI)
  show "(\<exists>msg. status (DoForward param input output ws) = TNNERR_MODEL_ERR msg) \<longleftrightarrow>
      (data_type output \<noteq> DATA_TYPE_FLOAT \<or>
       (data_type input \<noteq> DATA_TYPE_FLOAT \<and> data_type input \<noteq> DATA_TYPE_BFP16))"
    unfolding DoForward_status by (auto simp: supported_def)
qed (simp_all add: DoForward_def Let_def)

text \<open>
  Scenario D: an output blob declared \<^verbatim>\<open>DATA_TYPE_INT32\<close>.
\<close>

theorem C4_witness:
  "data_type (blank DATA_TYPE_INT32) \<noteq> DATA_TYPE_FLOAT \<and>
   DoForward \<lparr>mode = 1, axis = 3\<rparr> scenario_A (blank DATA_TYPE_INT32) scratch0 =
     \<lparr>status = TNNERR_MODEL_ERR ''Error: layer acc dont support datatype'',
      out_base = base (blank DATA_TYPE_INT32), out_elem = None, workspace_bytes = None,
      extents = None\<rparr>"
  using C4_unsupported_type[of "\<lparr>mode = 1, axis = 3\<rparr>" scenario_A "blank DATA_TYPE_INT32" scratch0]
  by (simp add: blank_def)

subsection \<open>C5: the element type of the stored indices\<close>

text \<open>
  C5 fails on the code for bfp16 input on the channel axis (and on the width axis):
  \<^verbatim>\<open>ExecDimC\<close> and \<^verbatim>\<open>ExecDimW\<close> cast the output handle to \<^verbatim>\<open>T *\<close>, so with \<^verbatim>\<open>T = bfp16_t\<close> the
  indices are stored through a \<^verbatim>\<open>bfp16_t *\<close> into a blob that \<^verbatim>\<open>DoForward\<close> has just checked to
  be float, while \<^verbatim>\<open>ExecImpl\<close> casts the same handle to \<^verbatim>\<open>float *\<close>. The run below is
  scenario C declared as bfp16: the cell at offset 0 behind the \<^verbatim>\<open>bfp16_t *\<close> is a 16-bit
  cell that holds the narrowed index 4.
\<close>

theorem C5_bfp16_store:
  "supported (scenario_C\<lparr>data_type := DATA_TYPE_BFP16\<rparr>) (blank DATA_TYPE_FLOAT) \<and>
   status (DoForward \<lparr>mode = 1, axis = 1\<rparr> (scenario_C\<lparr>data_type := DATA_TYPE_BFP16\<rparr>)
             (blank DATA_TYPE_FLOAT) scratch0) = TNN_OK \<and>
   out_elem (DoForward \<lparr>mode = 1, axis = 1\<rparr> (scenario_C\<lparr>data_type := DATA_TYPE_BFP16\<rparr>)
               (blank DATA_TYPE_FLOAT) scratch0) = Some T_bfp16_t \<and>
   out_elem (DoForward \<lparr>mode = 1, axis = 0\<rparr> (scenario_C\<lparr>data_type := DATA_TYPE_BFP16\<rparr>)
               (blank DATA_TYPE_FLOAT) scratch0) = Some T_float \<and>
   out_base (DoForward \<lparr>mode = 1, axis = 1\<rparr> (scenario_C\<lparr>data_type := DATA_TYPE_BFP16\<rparr>)
               (blank DATA_TYPE_FLOAT) scratch0) 0 = Idx_bfp16 4"
proof -
  let ?X = "scenario_C\<lparr>data_type := DATA_TYPE_BFP16\<rparr>"
  have f: "fits (axis \<lparr>mode = 1, axis = 1\<rparr>) ?X"
    by (simp add: fits_def elems_def ROUND_UP_def scenario_C_facts)
  have "out_base (Exec T_bfp16_t \<lparr>mode = 1, axis = 1\<rparr> ?X (blank DATA_TYPE_FLOAT) scratch0)
          (offset ((dims ?X)\<lparr>dim1 := 1\<rparr>) 0 0 0 0) =
        stored T_bfp16_t (channel_index (if mode \<lparr>mode = 1, axis = 1\<rparr> = 0 then 0 else 1) (base ?X)
               (offset (dims ?X) 0 0 0 0) (dim1 (dims ?X) div 4) (dim1 (dims ?X) mod 4)
               (dim2 (dims ?X) * dim3 (dims ?X) * 4))"
    by (rule Exec_position1[OF _ f]) (simp_all add: scenario_C_facts)
  moreover have "channel_index 1 (base scenario_C) (offset (dims scenario_C) 0 0 0 0) 1 1 4 = 4"
    using channel_index_exact[of 1 1 1 "base scenario_C" "offset (dims scenario_C) 0 0 0 0" 4]
      channel_cells[of "dims scenario_C" 0 0 0]
    by (simp add: scenario_C_facts scenario_C_channels scenario_C_scan_max)
  ultimately have "out_base (DoForward \<lparr>mode = 1, axis = 1\<rparr> ?X (blank DATA_TYPE_FLOAT) scratch0) 0 =
      Idx_bfp16 4"
    by (simp add: DoForward_def blank_simps scenario_C_facts offset_def)
  then show ?thesis
    by (simp add: scenario_C_def blank_def supported_def DoForward_def Exec_effects Exec_status)
qed

subsection \<open>C6: the extents and the workspace size\<close>

text \<open>
  C6, as stated, fails. The extents are \<^verbatim>\<open>int\<close> products. Width axis on the shape
  (65536, 4, 65536, 1): \<^verbatim>\<open>inner_dim = 65536 * 1 * 65536\<close> wraps to 0, the extents are (0, 1, 4)
  and their product is 0, while the padded element count is \<open>2^34\<close>.
\<close>

theorem C6_counterexample:
  "extents (Exec T_float \<lparr>mode = 0, axis = 3\<rparr> (peaks 65536 4 65536 1 []) (blank DATA_TYPE_FLOAT)
              scratch0) = Some (0, 1, 4) \<and>
   elems (dims (peaks 65536 4 65536 1 [])) = 17179869184"
  by (simp add: Exec_effects peaks_simps UP_DIV_def ROUND_UP_def elems_def int32_def)

text \<open>
  C6, amended. For every tensor with no empty extent whose padded element count
  \<open>N * ROUND_UP(C, 4) * H * W\<close> is below \<open>2^31\<close> (and, on the batch and height axes, whose
  workspace byte size is below \<open>2^31\<close>), for every axis in \<open>{0, 1, 2, 3}\<close> the extents of the
  strategy that runs multiply to the padded element count; they are
  \<open>(1, N, C_packed * H * W)\<close> for the batch axis, \<open>(N * C_packed / 4, H, W * 4)\<close> for the height
  axis, \<open>(N * UP_DIV(C, 4) * H, W, 4)\<close> for the width axis, and \<open>reduce = UP_DIV(C, 4)\<close>,
  \<open>outer = H * W * 4\<close> for the channel axis; the batch and height strategies ask for a
  workspace of \<open>outer_dim * GetBytesSize(input type)\<close> bytes, the other two for none.
\<close>

theorem C6_extents:
  assumes "axis param \<in> {0, 1, 2, 3}" "fits (axis param) input"
  shows "\<exists>inner_dim reduce_dim outer_dim.
           extents (Exec t param input output ws) =
             Some (int inner_dim, int reduce_dim, int outer_dim) \<and>
           inner_dim * reduce_dim * outer_dim = elems (dims input) \<and>
           (axis param = 0 \<longrightarrow>
              (inner_dim, reduce_dim, outer_dim) =
                (1, dim0 (dims input), ROUND_UP (dim1 (dims input)) 4 * dim2 (dims input) * dim3 (dims input)) \<and>
              workspace_bytes (Exec t param input output ws) =
                Some (int (outer_dim * GetBytesSize (data_type input)))) \<and>
           (axis param = 1 \<longrightarrow>
              reduce_dim = UP_DIV (dim1 (dims input)) 4 \<and>
              outer_dim = dim2 (dims input) * dim3 (dims input) * 4 \<and>
              workspace_bytes (Exec t param input output ws) = None) \<and>
           (axis param = 2 \<longrightarrow>
              (inner_dim, reduce_dim, outer_dim) =
                (dim0 (dims input) * ROUND_UP (dim1 (dims input)) 4 div 4, dim2 (dims input),
                 dim3 (dims input) * 4) \<and>
              workspace_bytes (Exec t param input output ws) =
                Some (int (outer_dim * GetBytesSize (data_type input)))) \<and>
           (axis param = 3 \<longrightarrow>
              (inner_dim, reduce_dim, outer_dim) =
                (dim0 (dims input) * UP_DIV (dim1 (dims input)) 4 * dim2 (dims input),
                 dim3 (dims input), 4) \<and>
              workspace_bytes (Exec t param input output ws) = None)"
proof -
  consider "axis param = 0" | "axis param = 1" | "axis param = 2" | "axis param = 3"
    using assms(1) by auto
  then show ?thesis
  proof cases
    case 1
    show ?thesis
      by (rule exI[of _ 1], rule exI[of _ "dim0 (dims input)"],
          rule exI[of _ "ROUND_UP (dim1 (dims input)) 4 * dim2 (dims input) * dim3 (dims input)"])
         (use 1 Exec_effects_fits(1)[OF assms(2) 1, of t "output" ws] in
           \<open>simp add: elems_def mult.assoc\<close>)
  next
    case 2
    show ?thesis
      by (rule exI[of _ "dim0 (dims input)"], rule exI[of _ "UP_DIV (dim1 (dims input)) 4"],
          rule exI[of _ "dim2 (dims input) * dim3 (dims input) * 4"])
         (use 2 Exec_effects_fits(2)[OF assms(2) 2, of t "output" ws] in
           \<open>simp add: elems_def ROUND_UP_4 mult_ac\<close>)
  next
    case 3
    show ?thesis
      by (rule exI[of _ "dim0 (dims input) * UP_DIV (dim1 (dims input)) 4"],
          rule exI[of _ "dim2 (dims input)"], rule exI[of _ "dim3 (dims input) * 4"])
         (use 3 Exec_effects_fits(3)[OF assms(2) 3, of t "output" ws] in
           \<open>simp add: elems_def ROUND_UP_4 mult_ac\<close>)
  next
    case 4
    show ?thesis
      by (rule exI[of _ "dim0 (dims input) * UP_DIV (dim1 (dims input)) 4 * dim2 (dims input)"],
          rule exI[of _ "dim3 (dims input)"], rule exI[of _ 4])
         (use 4 Exec_effects_fits(4)[OF assms(2) 4, of t "output" ws] in
           \<open>simp add: elems_def ROUND_UP_4 mult_ac\<close>)
  qed
qed

text \<open>
  The height axis on the shape (1, 5, 1, 1): extents (2, 1, 4), 8 padded elements, 16 bytes
  of float workspace.
\<close>

theorem C6_witness:
  "axis \<lparr>mode = 0, axis = 2\<rparr> \<in> {0, 1, 2, 3} \<and> fits (axis \<lparr>mode = 0, axis = 2\<rparr>) scenario_C \<and>
   extents (Exec T_float \<lparr>mode = 0, axis = 2\<rparr> scenario_C (blank DATA_TYPE_FLOAT) scratch0) =
     Some (2, 1, 4) \<and>
   elems (dims scenario_C) = 8 \<and>
   workspace_bytes (Exec T_float \<lparr>mode = 0, axis = 2\<rparr> scenario_C (blank DATA_TYPE_FLOAT) scratch0) =
     Some 16"
  using C6_extents[of "\<lparr>mode = 0, axis = 2\<rparr>" scenario_C T_float "blank DATA_TYPE_FLOAT" scratch0]
  by (auto simp add: scenario_C_fits scenario_C_facts elems_def ROUND_UP_def UP_DIV_def)

subsection \<open>C7: a reduce extent of 1\<close>

text \<open>
  C7, as stated, fails. On the channel axis the reduce extent of the strategy is
  \<open>UP_DIV(C, 4)\<close>. Channel axis, \<open>mode = max\<close>, three channels \<open>[1, 2, 3]\<close>: the extents are
  (1, 1, 4), so the reduce extent is 1, and the cell of the output position holds index 2.
\<close>

theorem C7_counterexample:
  "extents (DoForward \<lparr>mode = 1, axis = 1\<rparr> three_channels (blank DATA_TYPE_FLOAT) scratch0) =
     Some (1, 1, 4) \<and>
   out_base (DoForward \<lparr>mode = 1, axis = 1\<rparr> three_channels (blank DATA_TYPE_FLOAT) scratch0)
     (out_pos 1 (dims three_channels) 0 0 0 0) = Idx 2"
proof -
  have h: "supported three_channels (blank DATA_TYPE_FLOAT)"
    "float_store \<lparr>mode = 1, axis = 1\<rparr> three_channels"
    "fits (axis \<lparr>mode = 1, axis = 1\<rparr>) three_channels"
    "exact_indices (axis \<lparr>mode = 1, axis = 1\<rparr>) (dims three_channels)"
    by (simp_all add: supported_def float_store_def fits_def elems_def exact_indices_def
        extent_def ROUND_UP_def three_channels_facts blank_simps)
  have "extents (DoForward \<lparr>mode = 1, axis = 1\<rparr> three_channels (blank DATA_TYPE_FLOAT) scratch0) =
          Some (1, 1, 4)"
    unfolding DoForward_Exec(1)[OF h(1)]
    using Exec_effects_fits(2)[OF h(3), of T_float "blank DATA_TYPE_FLOAT" scratch0]
    by (simp add: three_channels_facts UP_DIV_def)
  moreover have "out_base (DoForward \<lparr>mode = 1, axis = 1\<rparr> three_channels (blank DATA_TYPE_FLOAT) scratch0)
     (out_pos 1 (dims three_channels) 0 0 0 0) = Idx 2"
    using DoForward_position[OF h, of 0 0 0 0 scratch0]
    by (simp add: three_channels_facts naive_index_def in_pos_def extent_def three_channels_scan)
  ultimately show ?thesis by simp
qed

text \<open>
  C7, amended. For every input tensor of a supported element type whose indices are stored
  through a \<^verbatim>\<open>float *\<close>, with no empty extent and a padded element count and a workspace size
  below \<open>2^31\<close>, for every axis and both modes: when the reduced axis has extent 1 (on the
  channel axis: one logical channel), every output position receives index 0.
\<close>

theorem C7_reduce_extent_one:
  assumes "supported input output" "float_store param input" "fits (axis param) input"
    and "axis param \<in> {0, 1, 2, 3}" "extent (axis param) (dims input) = 1"
    and "n < dim0 (dims input)" "c < dim1 (dims input)" "h < dim2 (dims input)" "w < dim3 (dims input)"
  shows "out_base (DoForward param input output ws) (out_pos (axis param) (dims input) n c h w) =
           Idx 0"
proof -
  have "exact_indices (axis param) (dims input)"
    using assms(5) by (simp add: exact_indices_def)
  from DoForward_position[OF assms(1-3) this assms(4,6-9), of ws]
  show ?thesis using assms(5) by (simp add: naive_index_def)
qed

text \<open>
  Scenario A has height 1; reduced along the height, min mode, position (0, 3, 0, 2).
\<close>

theorem C7_witness:
  "supported scenario_A (blank DATA_TYPE_FLOAT) \<and> float_store \<lparr>mode = 0, axis = 2\<rparr> scenario_A \<and>
   fits (axis \<lparr>mode = 0, axis = 2\<rparr>) scenario_A \<and> axis \<lparr>mode = 0, axis = 2\<rparr> \<in> {0, 1, 2, 3} \<and>
   extent (axis \<lparr>mode = 0, axis = 2\<rparr>) (dims scenario_A) = 1 \<and>
   0 < dim0 (dims scenario_A) \<and> 3 < dim1 (dims scenario_A) \<and>
   0 < dim2 (dims scenario_A) \<and> 2 < dim3 (dims scenario_A) \<and>
   out_base (DoForward \<lparr>mode = 0, axis = 2\<rparr> scenario_A (blank DATA_TYPE_FLOAT) scratch0)
     (out_pos 2 (dims scenario_A) 0 3 0 2) = Idx 0"
  using C7_reduce_extent_one[of scenario_A "blank DATA_TYPE_FLOAT" "\<lparr>mode = 0, axis = 2\<rparr>"
      0 3 0 2 scratch0]
  by (simp add: scenario_A_def blank_def supported_def float_store_def fits_def elems_def
      workspace_size_def ROUND_UP_def extent_def)

subsection \<open>C8: mode symmetry\<close>



subsection \<open>C9: an unsupported axis\<close>

text \<open>
  C9. For every axis outside \<open>{0, 1, 2, 3}\<close> the dispatcher \<^verbatim>\<open>Exec\<close> returns the parameter
  error; the result does not depend on the input memory, the output memory is returned as
  it was, no handle was cast and no workspace was requested. \<^verbatim>\<open>DoForward\<close> passes that
  result on when the element types are supported.
\<close>

theorem C9_unsupported_axis:
  assumes "axis param \<notin> {0, 1, 2, 3}"
  shows "Exec t param input output ws =
           \<lparr>status = TNNERR_PARAM_ERR ''argmax or argmin axis not support'',
            out_base = base output, out_elem = None, workspace_bytes = None, extents = None\<rparr> \<and>
         (supported input output \<longrightarrow>
            DoForward param input output ws =
              \<lparr>status = TNNERR_PARAM_ERR ''argmax or argmin axis not support'',
               out_base = base output, out_elem = None, workspace_bytes = None, extents = None\<rparr>)"
  using assms by (auto simp: Exec_def Let_def DoForward_def supported_def)

text \<open>
  Axis 4 on scenario A.
\<close>

theorem C9_witness:
  "axis \<lparr>mode = 0, axis = 4\<rparr> \<notin> {0, 1, 2, 3} \<and> supported scenario_A (blank DATA_TYPE_FLOAT) \<and>
   DoForward \<lparr>mode = 0, axis = 4\<rparr> scenario_A (blank DATA_TYPE_FLOAT) scratch0 =
     \<lparr>status = TNNERR_PARAM_ERR ''argmax or argmin axis not support'',
      out_base = base (blank DATA_TYPE_FLOAT), out_elem = None, workspace_bytes = None,
      extents = None\<rparr>"
  using C9_unsupported_axis[of "\<lparr>mode = 0, axis = 4\<rparr>" T_float scenario_A "blank DATA_TYPE_FLOAT" scratch0]
  by (simp add: scenario_A_def blank_def supported_def)

subsection \<open>C10: the range of the written values\<close>

text \<open>
  C10, as stated, fails. Channel axis, \<open>mode = max\<close>, float input of shape (1, 16777220, 1, 1)
  that holds 0 everywhere but for a 1 in the last channel, 16777219, which is lane 3 of the
  group 4194304: the horizontal compare forms \<open>4194304 * 4 + 3\<close> in float arithmetic, and the
  cell of the output position holds 16777220, which is \<open>C\<close> and not at most \<open>C - 1\<close>. (A
  reduced axis without positions is another such call, see \<open>empty_width\<close>.)
\<close>

theorem C10_counterexample:
  "out_base (DoForward \<lparr>mode = 1, axis = 1\<rparr> (peaks 1 16777220 1 1 [16777219])
               (blank DATA_TYPE_FLOAT) scratch0)
     (out_pos 1 (dims (peaks 1 16777220 1 1 [16777219])) 0 0 0 0) = Idx 16777220 \<and>
   extent 1 (dims (peaks 1 16777220 1 1 [16777219])) = 16777220"
proof -
  let ?X = "peaks 1 16777220 1 1 [16777219]"
  have flat: "naive_scan 1 (\<lambda>r. base ?X (0 + r * 4 + k)) 4194305 = 0" if "k < 3" for k
  proof (rule naive_scan_flat[where v = 0])
    fix j :: nat assume "j < 4194305"
    have "0 + j * 4 + k \<noteq> 16777219" using that by presburger
    then show "base ?X (0 + j * 4 + k) = 0" by (simp only: peaks_simps) simp
  qed
  have peak: "naive_scan 1 (\<lambda>r. base ?X (0 + r * 4 + 3)) 4194305 = 4194304"
  proof (rule naive_scan_peak)
    show "(4194304::nat) < 4194305" by simp
    show "base ?X (0 + 4194304 * 4 + 3) = 1" by (simp add: peaks_simps)
    fix j :: nat assume "j < 4194305" "j \<noteq> 4194304"
    then have "0 + j * 4 + 3 \<noteq> 16777219" by presburger
    then show "base ?X (0 + j * 4 + 3) = 0" by (simp only: peaks_simps) simp
  qed
  have s0: "naive_scan 1 (\<lambda>r. base ?X (0 + r * 4 + 0)) 4194305 = 0" by (rule flat) simp
  have s1: "naive_scan 1 (\<lambda>r. base ?X (0 + r * 4 + 1)) 4194305 = 0" by (rule flat) simp
  have s2: "naive_scan 1 (\<lambda>r. base ?X (0 + r * 4 + 2)) 4194305 = 0" by (rule flat) simp
  have g: "channel_index 1 (base ?X) 0 4194305 0 4 =
           index_final_of 1 (base ?X) 0 4194305 0 4 (F4 0 0 0 4194304, F4 0 0 0 1)"
    by (simp only: channel_index_guards s0 s1 s2 peak) (simp add: f32_values peaks_simps)
  have ci: "channel_index 1 (base ?X) 0 4194305 0 4 = 16777220"
    unfolding g
    by (simp add: index_final_of_def Let_def CompareC4.simps composite_def f32_mul_def f32_add_def
        f32_values f32_exact)
  have "out_base (DoForward \<lparr>mode = 1, axis = 1\<rparr> ?X (blank DATA_TYPE_FLOAT) scratch0)
          (out_pos (axis \<lparr>mode = 1, axis = 1\<rparr>) (dims ?X) 0 0 0 0) =
        Idx (channel_index (if mode \<lparr>mode = 1, axis = 1\<rparr> = 0 then 0 else 1) (base ?X)
               (offset (dims ?X) 0 0 0 0) (dim1 (dims ?X) div 4) (dim1 (dims ?X) mod 4)
               (dim2 (dims ?X) * dim3 (dims ?X) * 4))"
    by (rule DoForward_channel)
       (simp_all add: supported_def float_store_def fits_def elems_def ROUND_UP_def peaks_simps
          blank_simps)
  then show ?thesis using ci by (simp add: peaks_simps offset_def extent_def)
qed

text \<open>
  C10, amended. On a call on a tensor of a supported element type whose indices are
  stored through a \<^verbatim>\<open>float *\<close>, with no empty extent, a padded element count and a workspace
  size below \<open>2^31\<close>, and a reduced axis of extent at most \<open>2^24 + 1\<close>: every cell below the padded
  element count of the output shape holds a natural number below the extent of the
  reduced axis (for the channel axis: below \<open>C\<close>), on the channel axis the lanes 1 to 3 of
  every group hold 0, and every cell beyond that count is left as it was.
\<close>

theorem C10_index_range:
  assumes "supported input output" "float_store param input" "fits (axis param) input"
    and "exact_indices (axis param) (dims input)" "axis param \<in> {0, 1, 2, 3}"
  shows "status (DoForward param input output ws) = TNN_OK \<and>
         (if a < elems (reduced (axis param) (dims input))
          then (\<exists>k<extent (axis param) (dims input).
                  out_base (DoForward param input output ws) a = Idx k) \<and>
               (axis param = 1 \<and> a mod 4 \<noteq> 0 \<longrightarrow> out_base (DoForward param input output ws) a = Idx 0)
          else out_base (DoForward param input output ws) a = base output a)"
  using DoForward_written[OF assms, of a ws] assms(1,5) by (simp add: DoForward_status)

text \<open>
  Scenario C on the channel axis, cell 1 (lane 1 of the only group).
\<close>

theorem C10_witness:
  "supported scenario_C (blank DATA_TYPE_FLOAT) \<and> float_store \<lparr>mode = 1, axis = 1\<rparr> scenario_C \<and>
   fits (axis \<lparr>mode = 1, axis = 1\<rparr>) scenario_C \<and>
   exact_indices (axis \<lparr>mode = 1, axis = 1\<rparr>) (dims scenario_C) \<and>
   axis \<lparr>mode = 1, axis = 1\<rparr> \<in> {0, 1, 2, 3} \<and>
   1 < elems (reduced (axis \<lparr>mode = 1, axis = 1\<rparr>) (dims scenario_C)) \<and>
   status (DoForward \<lparr>mode = 1, axis = 1\<rparr> scenario_C (blank DATA_TYPE_FLOAT) scratch0) = TNN_OK \<and>
   out_base (DoForward \<lparr>mode = 1, axis = 1\<rparr> scenario_C (blank DATA_TYPE_FLOAT) scratch0) 1 = Idx 0"
  using C10_index_range[of scenario_C "blank DATA_TYPE_FLOAT" "\<lparr>mode = 1, axis = 1\<rparr>" scratch0 1]
  by (simp add: scenario_C_supported scenario_C_fits scenario_C_exact float_store_def
      scenario_C_facts elems_def reduced_def ROUND_UP_def)

end
